theory Spec2Isabelle
  imports Main
begin

section \<open>Text\<close>

text \<open>
  A Python \<open>str\<close> is a sequence of Unicode code points and \<open>len\<close> counts code points,
  so text is a list of code points, each a natural number. Tag names and attribute
  values are only ever compared for equality and stay HOL strings.
\<close>

type_synonym ustring = "nat list"

definition u :: "string \<Rightarrow> ustring" where
  "u s = map of_char s"

text \<open>
  The characters matched by \<open>\s\<close> in a \<open>str\<close> pattern and stripped by \<open>str.strip()\<close>:
  the code points for which \<open>str.isspace\<close> holds. U+00A0 (160, the non-breaking space)
  is one of them; U+200B (8203, the zero-width space) is not.
\<close>

definition is_space :: "nat \<Rightarrow> bool" where
  "is_space c = ((9 \<le> c \<and> c \<le> 13) \<or> (28 \<le> c \<and> c \<le> 32) \<or> c = 133 \<or> c = 160
     \<or> c = 5760 \<or> (8192 \<le> c \<and> c \<le> 8202) \<or> c = 8232 \<or> c = 8233 \<or> c = 8239
     \<or> c = 8287 \<or> c = 12288)"

text \<open>
  \<open>re.sub(r'[...]+', rep, text)\<close> for a character class: scanning from the left, every
  maximal run of characters of the class is replaced by \<open>rep\<close>.
\<close>

function re_sub_runs :: "(nat \<Rightarrow> bool) \<Rightarrow> ustring \<Rightarrow> ustring \<Rightarrow> ustring" where
  "re_sub_runs P rep [] = []"
| "re_sub_runs P rep (c # cs) =
     (if P c then rep @ re_sub_runs P rep (dropWhile P cs) else c # re_sub_runs P rep cs)"
  by pat_completeness auto
termination
  by (relation "measure (\<lambda>(P, rep, s). length s)")
     (auto simp: length_dropWhile_le less_Suc_eq_le)

definition strip :: "ustring \<Rightarrow> ustring" where
  "strip s = rev (dropWhile is_space (rev (dropWhile is_space s)))"

definition replace_char :: "nat \<Rightarrow> ustring \<Rightarrow> ustring \<Rightarrow> ustring" where
  "replace_char old new s = concat (map (\<lambda>c. if c = old then new else [c]) s)"

text \<open>\<open>clean_text\<close>, lines 68 to 81.\<close>

definition clean_text :: "ustring \<Rightarrow> ustring" where
  "clean_text text =
     (if text = [] then []
      else let text = re_sub_runs is_space [32] text;
               text = strip text;
               text = replace_char 160 [32] text;
               text = replace_char 8203 [] text
           in text)"

text \<open>\<open>str(n)\<close> for a non-negative integer: its decimal digits.\<close>

fun str_nat :: "nat \<Rightarrow> ustring" where
  "str_nat n = (if n < 10 then [48 + n] else str_nat (n div 10) @ [48 + n mod 10])"

declare str_nat.simps [simp del]

section \<open>The parsed document\<close>

text \<open>
  The tree the HTML parser returns. An element has a tag name, its attributes (each
  name with its list of values, kept in one canonical order, so that two attribute
  dictionaries are equal when their lists are) and its children in document order. A
  string of the tree is a \<open>Text\<close> when \<open>get_text\<close> and
  \<open>stripped_strings\<close> yield it, and a \<open>Comment\<close> when they pass over it (a comment, a
  declaration, a processing instruction). The parser itself is outside the
  repository; the functions below take the tree.
\<close>

datatype node =
  Text ustring
| Comment ustring
| Elem string "(string \<times> string list) list" "node list"

fun name :: "node \<Rightarrow> string option" where
  "name (Text s) = None"
| "name (Comment s) = None"
| "name (Elem n a cs) = Some n"

fun attrs :: "node \<Rightarrow> (string \<times> string list) list" where
  "attrs (Text s) = []"
| "attrs (Comment s) = []"
| "attrs (Elem n a cs) = a"

fun contents :: "node \<Rightarrow> node list" where
  "contents (Text s) = []"
| "contents (Comment s) = []"
| "contents (Elem n a cs) = cs"

fun is_tag :: "node \<Rightarrow> bool" where
  "is_tag (Text s) = False"
| "is_tag (Comment s) = False"
| "is_tag (Elem n a cs) = True"

definition named :: "string list \<Rightarrow> node \<Rightarrow> bool" where
  "named ns x = (case name x of None \<Rightarrow> False | Some n \<Rightarrow> n \<in> set ns)"

definition has_class :: "string \<Rightarrow> node \<Rightarrow> bool" where
  "has_class c x = (case map_of (attrs x) ''class'' of None \<Rightarrow> False | Some vs \<Rightarrow> c \<in> set vs)"

text \<open>\<open>get_text()\<close>: the strings below a node, concatenated in document order.\<close>

fun get_text :: "node \<Rightarrow> ustring" where
  "get_text (Text s) = s"
| "get_text (Comment s) = []"
| "get_text (Elem n a cs) = concat (map get_text cs)"

text \<open>The nodes below a node, in document order (the node itself is not one of them).\<close>

fun descendants :: "node \<Rightarrow> node list" where
  "descendants (Text s) = []"
| "descendants (Comment s) = []"
| "descendants (Elem n a cs) = concat (map (\<lambda>c. c # descendants c) cs)"

text \<open>\<open>find_all(names)\<close>, \<open>find_all(names, recursive=False)\<close> and \<open>find(names)\<close>.\<close>

definition find_all :: "string list \<Rightarrow> node \<Rightarrow> node list" where
  "find_all ns x = filter (named ns) (descendants x)"

definition find_all_direct :: "string list \<Rightarrow> node \<Rightarrow> node list" where
  "find_all_direct ns x = filter (named ns) (contents x)"

definition find_first :: "(node \<Rightarrow> bool) \<Rightarrow> node \<Rightarrow> node option" where
  "find_first P x = (case filter P (descendants x) of [] \<Rightarrow> None | y # ys \<Rightarrow> Some y)"

text \<open>
  \<open>stripped_strings\<close>: every string of the tree in document order, stripped, the empty
  ones left out.
\<close>

fun all_strings :: "node \<Rightarrow> ustring list" where
  "all_strings (Text s) = [s]"
| "all_strings (Comment s) = []"
| "all_strings (Elem n a cs) = concat (map all_strings cs)"

definition stripped_strings :: "node \<Rightarrow> ustring list" where
  "stripped_strings x = filter (\<lambda>s. s \<noteq> []) (map strip (all_strings x))"

text \<open>
  A node keeps its place in the tree: \<open>find_next_siblings()\<close> needs what follows it
  under its parent. \<open>with_next_siblings\<close> lists the nodes of a forest in document
  order, each with the nodes after it under the same parent.
\<close>

fun with_next_siblings :: "node list \<Rightarrow> (node \<times> node list) list" where
  "with_next_siblings [] = []"
| "with_next_siblings (Text s # rest) = (Text s, rest) # with_next_siblings rest"
| "with_next_siblings (Comment s # rest) = (Comment s, rest) # with_next_siblings rest"
| "with_next_siblings (Elem n a cs # rest) =
     (Elem n a cs, rest) # with_next_siblings cs @ with_next_siblings rest"

definition find_next_siblings :: "node list \<Rightarrow> node list" where
  "find_next_siblings rest = filter is_tag rest"

text \<open>
  \<open>==\<close> and \<open>!=\<close> on two nodes. Two tags are equal when they have the same name, the
  same attributes and as many children, equal one by one; two strings are equal when
  their characters are, a comment or not; a string and a tag are not equal. That is
  equality of the trees once every comment is taken as a text.
\<close>

fun plain :: "node \<Rightarrow> node" where
  "plain (Text s) = Text s"
| "plain (Comment s) = Text s"
| "plain (Elem n a cs) = Elem n a (map plain cs)"

definition node_eq :: "node \<Rightarrow> node \<Rightarrow> bool" where
  "node_eq x y = (plain x = plain y)"

section \<open>The policy record\<close>

record clause =
  clause_number :: ustring
  clause_text :: ustring
  subclauses :: "ustring list"

record section_rec =
  section_title :: ustring
  clauses :: "clause list"

record part =
  part_title :: ustring
  sections :: "section_rec list"

record metadata =
  title :: ustring
  approval_date :: ustring
  review_date :: ustring
  source_path :: ustring
  scraped_date :: ustring

record policy =
  metadata :: metadata
  "structure" :: "part list"
  qa_index :: "ustring list"

section \<open>Clause extraction\<close>

text \<open>
  \<open>extract_clauses_from_list\<close>, lines 84 to 109. \<open>li.find(['ol', 'ul'])\<close> is the first
  list below the item; a tag is always true in a condition, so only \<open>None\<close> takes the
  other branch.
\<close>

definition subclauses_of :: "node \<Rightarrow> ustring list" where
  "subclauses_of li =
     (case find_first (named [''ol'', ''ul'']) li of
        None \<Rightarrow> []
      | Some nested_list \<Rightarrow>
          filter (\<lambda>sub_text. 20 \<le> length sub_text)
            (map (\<lambda>sub_li. clean_text (get_text sub_li)) (find_all [''li''] nested_list)))"

definition clause_of_item :: "nat \<times> node \<Rightarrow> clause list" where
  "clause_of_item p =
     (case p of (i, li) \<Rightarrow>
        let text = clean_text (get_text li) in
        if length text < 20 then []
        else [\<lparr>clause_number = str_nat (i + 1), clause_text = text, subclauses = subclauses_of li\<rparr>])"

definition extract_clauses_from_list :: "node \<Rightarrow> clause list" where
  "extract_clauses_from_list ol_element =
     concat (map clause_of_item (enumerate 0 (find_all_direct [''li''] ol_element)))"

section \<open>Unicode tables\<close>

text \<open>
  \<open>\d\<close>, \<open>\w\<close> and \<open>str.lower()\<close> read the Unicode character database, which is not
  part of the repository. On ASCII their behaviour is fixed and written out here;
  beyond ASCII the tables are a parameter of the model.
\<close>

record unicode_db =
  db_isdecimal :: "nat \<Rightarrow> bool"
  db_isalnum :: "nat \<Rightarrow> bool"
  db_lower :: "ustring \<Rightarrow> ustring"

definition is_digit :: "unicode_db \<Rightarrow> nat \<Rightarrow> bool" where
  "is_digit db c = (if c < 128 then 48 \<le> c \<and> c \<le> 57 else db_isdecimal db c)"

definition is_word :: "unicode_db \<Rightarrow> nat \<Rightarrow> bool" where
  "is_word db c =
     (if c < 128
      then (48 \<le> c \<and> c \<le> 57) \<or> (65 \<le> c \<and> c \<le> 90) \<or> (97 \<le> c \<and> c \<le> 122) \<or> c = 95
      else db_isalnum db c)"

definition ascii_lower :: "nat \<Rightarrow> nat" where
  "ascii_lower c = (if 65 \<le> c \<and> c \<le> 90 then c + 32 else c)"

definition lower :: "unicode_db \<Rightarrow> ustring \<Rightarrow> ustring" where
  "lower db s = (if list_all (\<lambda>c. c < 128) s then map ascii_lower s else db_lower db s)"

text \<open>The tables with nothing beyond ASCII, for evaluating the model on ASCII text.\<close>

definition ascii_db :: unicode_db where
  "ascii_db = \<lparr>db_isdecimal = (\<lambda>c. False), db_isalnum = (\<lambda>c. False),
     db_lower = map ascii_lower\<rparr>"

text \<open>\<open>pat in s\<close> on strings.\<close>

fun contains :: "ustring \<Rightarrow> ustring \<Rightarrow> bool" where
  "contains pat [] = (pat = [])"
| "contains pat (c # cs) = (take (length pat) (c # cs) = pat \<or> contains pat cs)"

section \<open>The date pattern\<close>

text \<open>
  \<open>re.search(r'\d{1,2}[-/]\d{1,2}[-/]\d{4}', text)\<close>: the pattern is tried at each
  position from the left; \<open>\d{1,2}\<close> is greedy, two digits are tried before one, and the
  matcher backtracks when the rest of the pattern fails. Each piece takes the matcher
  \<open>k\<close> of the rest of the pattern and returns the text matched.
\<close>

definition digits_at :: "unicode_db \<Rightarrow> nat \<Rightarrow> ustring \<Rightarrow> bool" where
  "digits_at db n s = (n \<le> length s \<and> list_all (is_digit db) (take n s))"

definition is_sep :: "nat \<Rightarrow> bool" where
  "is_sep c = (c = 45 \<or> c = 47)"

definition match_digits ::
  "unicode_db \<Rightarrow> nat \<Rightarrow> (ustring \<Rightarrow> ustring option) \<Rightarrow> ustring \<Rightarrow> ustring option" where
  "match_digits db n k s =
     (if digits_at db n s then map_option (\<lambda>m. take n s @ m) (k (drop n s)) else None)"

definition match_digits12 ::
  "unicode_db \<Rightarrow> (ustring \<Rightarrow> ustring option) \<Rightarrow> ustring \<Rightarrow> ustring option" where
  "match_digits12 db k s =
     (case match_digits db 2 k s of Some m \<Rightarrow> Some m | None \<Rightarrow> match_digits db 1 k s)"

definition match_sep :: "(ustring \<Rightarrow> ustring option) \<Rightarrow> ustring \<Rightarrow> ustring option" where
  "match_sep k s =
     (case s of [] \<Rightarrow> None
      | c # cs \<Rightarrow> if is_sep c then map_option (\<lambda>m. c # m) (k cs) else None)"

definition match_end :: "ustring \<Rightarrow> ustring option" where
  "match_end s = Some []"

definition match_date :: "unicode_db \<Rightarrow> ustring \<Rightarrow> ustring option" where
  "match_date db =
     match_digits12 db (match_sep (match_digits12 db (match_sep (match_digits db 4 match_end))))"

fun re_search_date :: "unicode_db \<Rightarrow> ustring \<Rightarrow> ustring option" where
  "re_search_date db [] = match_date db []"
| "re_search_date db (c # cs) =
     (case match_date db (c # cs) of Some m \<Rightarrow> Some m | None \<Rightarrow> re_search_date db cs)"

section \<open>Document extraction\<close>

text \<open>The scan of lines 142 to 150: one step per text fragment, no exit from the loop.\<close>

definition approval_keyword :: "unicode_db \<Rightarrow> ustring \<Rightarrow> bool" where
  "approval_keyword db text =
     (contains (u ''approval date'') (lower db text) \<or> contains (u ''approved'') (lower db text))"

definition review_keyword :: "unicode_db \<Rightarrow> ustring \<Rightarrow> bool" where
  "review_keyword db text =
     (contains (u ''review date'') (lower db text) \<or> contains (u ''reviewed'') (lower db text))"

definition date_step ::
  "unicode_db \<Rightarrow> ustring \<times> ustring \<Rightarrow> ustring \<Rightarrow> ustring \<times> ustring" where
  "date_step db dates text =
     (let approval = fst dates; review = snd dates;
          approval =
            (if approval_keyword db text
             then (case re_search_date db text of Some m \<Rightarrow> m | None \<Rightarrow> approval)
             else approval);
          review =
            (if review_keyword db text
             then (case re_search_date db text of Some m \<Rightarrow> m | None \<Rightarrow> review)
             else review)
      in (approval, review))"

definition scan_dates :: "unicode_db \<Rightarrow> ustring list \<Rightarrow> ustring \<times> ustring" where
  "scan_dates db strings = foldl (date_step db) ([], []) strings"

text \<open>
  The walk over the siblings after a heading, lines 169 to 186, with the clauses
  collected so far. \<open>sibling != heading\<close> is the comparison \<open>node_eq\<close> of the two tags.
\<close>

fun collect_clauses :: "node \<Rightarrow> node list \<Rightarrow> clause list \<Rightarrow> clause list" where
  "collect_clauses heading [] cl = cl"
| "collect_clauses heading (sibling # rest) cl =
     (if named [''h2'', ''h3''] sibling \<and> \<not> node_eq sibling heading then cl
      else if name sibling = Some ''ol''
      then collect_clauses heading rest (cl @ extract_clauses_from_list sibling)
      else if name sibling = Some ''p''
      then (let text = clean_text (get_text sibling) in
            if 20 \<le> length text
            then collect_clauses heading rest
                   (cl @ [\<lparr>clause_number = str_nat (length cl + 1),
                           clause_text = text, subclauses = []\<rparr>])
            else collect_clauses heading rest cl)
      else collect_clauses heading rest cl)"

text \<open>One heading of lines 160 to 193: no section or one.\<close>

definition section_of :: "node \<times> node list \<Rightarrow> section_rec list" where
  "section_of p =
     (let heading = fst p; following = snd p;
          stitle = clean_text (get_text heading) in
      if stitle = [] \<or> length stitle < 3 then []
      else let cl = collect_clauses heading (find_next_siblings following) [] in
           if cl \<noteq> [] then [\<lparr>section_title = stitle, clauses = cl\<rparr>] else [])"

definition headings :: "node \<Rightarrow> (node \<times> node list) list" where
  "headings content_area =
     filter (\<lambda>p. named [''h2'', ''h3''] (fst p)) (with_next_siblings (contents content_area))"

definition extract_sections :: "node \<Rightarrow> section_rec list" where
  "extract_sections content_area = concat (map section_of (headings content_area))"

text \<open>
  \<open>soup.find('div', class_='content') or soup.find('main') or soup.body\<close>; a tag found
  is always true, so \<open>or\<close> moves on only at \<open>None\<close>.
\<close>

definition find_content_area :: "node \<Rightarrow> node option" where
  "find_content_area soup =
     (case find_first (\<lambda>x. named [''div''] x \<and> has_class ''content'' x) soup of
        Some x \<Rightarrow> Some x
      | None \<Rightarrow>
          (case find_first (named [''main'']) soup of
             Some x \<Rightarrow> Some x
           | None \<Rightarrow> find_first (named [''body'']) soup))"

text \<open>
  \<open>scrape_policy_document\<close>, lines 112 to 213. The request and the parser are outside:
  \<open>response\<close> is \<open>None\<close> when the request raised \<open>RequestException\<close>, else the parsed
  page. \<open>today\<close> and \<open>now\<close> are the two renderings of the clock.
\<close>

definition scrape_policy_document ::
  "unicode_db \<Rightarrow> ustring \<Rightarrow> ustring \<Rightarrow> node option \<Rightarrow> ustring \<Rightarrow> policy option" where
  "scrape_policy_document db today now response url =
     (case response of
        None \<Rightarrow> None
      | Some soup \<Rightarrow>
          let ttl = (case find_first (named [''h1'']) soup of
                       None \<Rightarrow> u ''Unknown Policy''
                     | Some title_elem \<Rightarrow> clean_text (get_text title_elem));
              dates = scan_dates db (stripped_strings soup);
              secs = (case find_content_area soup of
                        None \<Rightarrow> []
                      | Some content_area \<Rightarrow> extract_sections content_area)
          in Some \<lparr>metadata = \<lparr>title = ttl, approval_date = fst dates,
                       review_date = (if snd dates \<noteq> [] then snd dates else today),
                       source_path = url, scraped_date = now\<rparr>,
                   structure = [\<lparr>part_title = u ''Main Content'', sections = secs\<rparr>],
                   qa_index = []\<rparr>)"

section \<open>Storage\<close>

text \<open>
  The file name of lines 229 to 234: the characters outside \<open>[\w\s-]\<close> are removed,
  then every run of characters of \<open>[-\s]\<close> becomes one underscore.
\<close>

definition is_separator :: "nat \<Rightarrow> bool" where
  "is_separator c = (c = 45 \<or> is_space c)"

definition policy_filename :: "unicode_db \<Rightarrow> ustring \<Rightarrow> ustring" where
  "policy_filename db ttl =
     (let filename = filter (\<lambda>c. is_word db c \<or> is_space c \<or> c = 45) ttl;
          filename = re_sub_runs is_separator [95] filename;
          filename = take 80 filename
      in filename @ u ''.json'')"

text \<open>\<open>os.path.join\<close> of two components, on a POSIX system.\<close>

definition path_join :: "ustring \<Rightarrow> ustring \<Rightarrow> ustring" where
  "path_join a b =
     (if take 1 b = [47] then b
      else if a = [] \<or> last a = 47 then a @ b
      else a @ [47] @ b)"

datatype exn =
  RequestException | IndexError | OSError | UnicodeEncodeError | OtherException

text \<open>
  The file is opened with the encoding UTF-8 and \<open>json.dump\<close> writes every string of
  the document as it is (\<open>ensure_ascii=False\<close>): a surrogate code point in any of them
  cannot be encoded, and the write raises.
\<close>

definition is_surrogate :: "nat \<Rightarrow> bool" where
  "is_surrogate c = (55296 \<le> c \<and> c \<le> 57343)"

definition clause_strings :: "clause \<Rightarrow> ustring list" where
  "clause_strings c = clause_number c # clause_text c # subclauses c"

definition section_strings :: "section_rec \<Rightarrow> ustring list" where
  "section_strings s = section_title s # concat (map clause_strings (clauses s))"

definition part_strings :: "part \<Rightarrow> ustring list" where
  "part_strings p = part_title p # concat (map section_strings (sections p))"

definition policy_strings :: "policy \<Rightarrow> ustring list" where
  "policy_strings pol =
     [title (metadata pol), approval_date (metadata pol), review_date (metadata pol),
      source_path (metadata pol), scraped_date (metadata pol)]
     @ concat (map part_strings (structure pol)) @ qa_index pol"

definition encodable :: "policy \<Rightarrow> bool" where
  "encodable pol = list_all (\<lambda>s. \<not> list_ex is_surrogate s) (policy_strings pol)"

text \<open>
  \<open>save_policy_json\<close>, lines 216 to 241. The file system is a map from paths to files,
  a file being a document written whole or the beginning of one; \<open>open_error\<close> gives
  the exception that creating the directory or opening the file raises at a path, if
  any, and then the files are as they were. Opening the file creates it, so when the
  write raises the file is there, cut short. The result is what the call returns or
  raises, with the files it leaves.
\<close>

datatype stored_file = Complete policy | Truncated policy

type_synonym files = "ustring \<rightharpoonup> stored_file"

definition save_policy_json ::
  "unicode_db \<Rightarrow> (ustring \<Rightarrow> exn option) \<Rightarrow> policy \<Rightarrow> ustring \<Rightarrow> files \<Rightarrow>
   (exn + ustring) \<times> files" where
  "save_policy_json db open_error pol output_dir fs =
     (let filepath = path_join output_dir (policy_filename db (title (metadata pol))) in
      case open_error filepath of
        Some e \<Rightarrow> (Inl e, fs)
      | None \<Rightarrow>
          if encodable pol then (Inr filepath, fs(filepath \<mapsto> Complete pol))
          else (Inl UnicodeEncodeError, fs(filepath \<mapsto> Truncated pol)))"

section \<open>The driver\<close>

text \<open>
  \<open>scrape_all_policies\<close>, lines 244 to 311. What the driver calls is a parameter: the
  links \<open>get_all_policy_links()\<close> returned, the outcome of \<open>scrape_policy_document\<close> on a
  link (an exception, \<open>None\<close> or a document) and the outcome of \<open>save_policy_json\<close>.
  Exceptions are those \<open>except Exception\<close> catches. The state of the loop holds the two
  counters, the links announced on the console and the files.
\<close>

record world =
  discovered :: "ustring list"
  scrape :: "ustring \<Rightarrow> exn + policy option"
  save :: "policy \<Rightarrow> ustring \<Rightarrow> files \<Rightarrow> (exn + ustring) \<times> files"

record run_state =
  success_count :: nat
  failed_count :: nat
  attempted :: "ustring list"
  written :: files

record summary =
  success :: nat
  failed :: nat
  total :: nat

definition count_failed :: "run_state \<Rightarrow> run_state" where
  "count_failed st = st\<lparr>failed_count := failed_count st + 1\<rparr>"

text \<open>One turn of the loop, lines 276 to 293.\<close>

definition process_link :: "world \<Rightarrow> ustring \<Rightarrow> run_state \<Rightarrow> ustring \<Rightarrow> run_state" where
  "process_link w output_dir st0 url =
     (let st = st0\<lparr>attempted := attempted st0 @ [url]\<rparr> in
      case scrape w url of
        Inl e \<Rightarrow> count_failed st
      | Inr None \<Rightarrow> count_failed st
      | Inr (Some pol) \<Rightarrow>
          (case structure pol of
             [] \<Rightarrow> count_failed st
           | p # ps \<Rightarrow>
               if sections p \<noteq> []
               then (case save w pol output_dir (written st) of
                       (Inl e, fs) \<Rightarrow> count_failed (st\<lparr>written := fs\<rparr>)
                     | (Inr filepath, fs) \<Rightarrow>
                         st\<lparr>success_count := success_count st + 1, written := fs\<rparr>)
               else count_failed st))"

text \<open>\<open>xs[:n]\<close> for an integer \<open>n\<close>; a negative \<open>n\<close> counts from the end.\<close>

definition slice_to :: "int \<Rightarrow> 'a list \<Rightarrow> 'a list" where
  "slice_to n xs = (if 0 \<le> n then take (nat n) xs else take (length xs - nat (- n)) xs)"

text \<open>Lines 267 and 268: \<open>None\<close> and \<open>0\<close> are both false in the condition.\<close>

definition limit_links :: "int option \<Rightarrow> ustring list \<Rightarrow> ustring list" where
  "limit_links max_policies policy_links =
     (case max_policies of
        None \<Rightarrow> policy_links
      | Some n \<Rightarrow> if n \<noteq> 0 then slice_to n policy_links else policy_links)"

definition initial_state :: "files \<Rightarrow> run_state" where
  "initial_state fs = \<lparr>success_count = 0, failed_count = 0, attempted = [], written = fs\<rparr>"

definition scrape_all_policies ::
  "world \<Rightarrow> files \<Rightarrow> ustring \<Rightarrow> int option \<Rightarrow> summary \<times> run_state" where
  "scrape_all_policies w fs output_dir max_policies =
     (let policy_links = discovered w in
      if policy_links = []
      then (\<lparr>success = 0, failed = 0, total = 0\<rparr>, initial_state fs)
      else let policy_links = limit_links max_policies policy_links;
               st = foldl (process_link w output_dir) (initial_state fs) policy_links
           in (\<lparr>success = success_count st, failed = failed_count st,
                total = length policy_links\<rparr>, st))"

text \<open>
  The world in which the driver calls the two functions above: \<open>fetch\<close> is the request
  and the parse of a link.
\<close>

definition real_world ::
  "unicode_db \<Rightarrow> ustring \<Rightarrow> ustring \<Rightarrow> (ustring \<Rightarrow> node option) \<Rightarrow>
   (ustring \<Rightarrow> exn option) \<Rightarrow> ustring list \<Rightarrow> world" where
  "real_world db today now fetch open_error links =
     \<lparr>discovered = links,
      scrape = (\<lambda>url. Inr (scrape_policy_document db today now (fetch url) url)),
      save = save_policy_json db open_error\<rparr>"

section \<open>Named conditions and example inputs\<close>

text \<open>The test of line 91, as the condition for an item to give a clause.\<close>

definition retained :: "node \<Rightarrow> bool" where
  "retained li = (20 \<le> length (clean_text (get_text li)))"

definition long_item :: node where
  "long_item = Elem ''li'' [] [Text (u ''This item is long enough.'')]"

definition short_item :: node where
  "short_item = Elem ''li'' [] [Text (u ''Too short'')]"

definition five_items :: node where
  "five_items = Elem ''ol'' [] [long_item, short_item, long_item, long_item, long_item]"

text \<open>
  A run over three links: the first raises, the second gives a document with no
  section, the third gives a document that is saved.
\<close>

definition stored_policy :: policy where
  "stored_policy =
     \<lparr>metadata = \<lparr>title = u ''T'', approval_date = [], review_date = u ''2026-01-01'',
                  source_path = u ''c'', scraped_date = u ''2026-01-01 00:00:00''\<rparr>,
      structure = [\<lparr>part_title = u ''Main Content'',
                     sections = [\<lparr>section_title = u ''Scope'',
                                   clauses = [\<lparr>clause_number = u ''1'',
                                                clause_text = u ''This clause is long enough.'',
                                                subclauses = []\<rparr>]\<rparr>]\<rparr>],
      qa_index = []\<rparr>"

definition empty_policy :: policy where
  "empty_policy =
     stored_policy\<lparr>structure := [\<lparr>part_title = u ''Main Content'', sections = []\<rparr>]\<rparr>"

definition three_links_world :: world where
  "three_links_world =
     \<lparr>discovered = [u ''a'', u ''b'', u ''c''],
      scrape = (\<lambda>url. if url = u ''a'' then Inl OtherException
                      else if url = u ''b'' then Inr (Some empty_policy)
                      else Inr (Some stored_policy)),
      save = (\<lambda>pol output_dir fs. (Inr output_dir, fs(output_dir \<mapsto> Complete pol)))\<rparr>"

text \<open>The stored document under another title.\<close>

definition titled :: "ustring \<Rightarrow> policy" where
  "titled ttl = stored_policy\<lparr>metadata := (metadata stored_policy)\<lparr>title := ttl\<rparr>\<rparr>"

text \<open>
  The shape of a date in the words of the pattern: one or two digits, a separator,
  one or two digits, a separator, four digits, each separator a hyphen or a slash.
\<close>

definition date_shaped :: "unicode_db \<Rightarrow> ustring \<Rightarrow> bool" where
  "date_shaped db m =
     list_ex (\<lambda>p. length m = fst p + snd p + 6
                \<and> list_all (is_digit db) (take (fst p) m)
                \<and> is_sep (m ! fst p)
                \<and> list_all (is_digit db) (take (snd p) (drop (fst p + 1) m))
                \<and> is_sep (m ! (fst p + snd p + 1))
                \<and> list_all (is_digit db) (drop (fst p + snd p + 2) m))
       [(1, 1), (1, 2), (2, 1), (2, 2)]"

text \<open>A fragment that has the keyword and a match of the pattern: it sets the date.\<close>

definition sets_approval :: "unicode_db \<Rightarrow> ustring \<Rightarrow> bool" where
  "sets_approval db text = (approval_keyword db text \<and> re_search_date db text \<noteq> None)"

definition sets_review :: "unicode_db \<Rightarrow> ustring \<Rightarrow> bool" where
  "sets_review db text = (review_keyword db text \<and> re_search_date db text \<noteq> None)"

text \<open>A page with two approval fragments and two review fragments.\<close>

definition dated_page :: node where
  "dated_page =
     Elem ''[document]'' []
       [Elem ''p'' [] [Text (u ''Approved 1/2/2020'')],
        Elem ''p'' [] [Text (u ''Reviewed 5-6-2022'')],
        Elem ''p'' [] [Text (u '' approved 3-4-2021 '')],
        Elem ''p'' [] [Text (u ''Review date 7/8/2023'')]]"

text \<open>The sections of the value returned by the document extractor, over all parts.\<close>

definition doc_sections :: "policy option \<Rightarrow> section_rec list" where
  "doc_sections result =
     (case result of None \<Rightarrow> [] | Some pol \<Rightarrow> concat (map sections (structure pol)))"

text \<open>Clause numbers that are 1, 2, ..., k.\<close>

definition contiguous :: "clause list \<Rightarrow> bool" where
  "contiguous cl = (map clause_number cl = map (\<lambda>i. str_nat (i + 1)) [0..<length cl])"

text \<open>The siblings the walk of lines 169 to 186 visits before it stops.\<close>

definition walked :: "node \<Rightarrow> node list \<Rightarrow> node list" where
  "walked heading siblings =
     takeWhile (\<lambda>sibling. \<not> (named [''h2'', ''h3''] sibling \<and> \<not> node_eq sibling heading))
       siblings"

text \<open>
  The numbering in words. The positions, from 0, of the direct items of a list that
  give a clause; and the numbers that the visited siblings add when \<open>n\<close> clauses have
  been collected: a list adds the position plus one of each item it keeps, a paragraph
  that is kept adds the count so far plus one.
\<close>

definition kept_positions :: "node \<Rightarrow> nat list" where
  "kept_positions ol_element =
     map fst (filter (\<lambda>p. retained (snd p)) (enumerate 0 (find_all_direct [''li''] ol_element)))"

fun numbers_from :: "nat \<Rightarrow> node list \<Rightarrow> ustring list" where
  "numbers_from n [] = []"
| "numbers_from n (sibling # rest) =
     (if name sibling = Some ''ol''
      then map (\<lambda>i. str_nat (i + 1)) (kept_positions sibling)
           @ numbers_from (n + length (kept_positions sibling)) rest
      else if name sibling = Some ''p'' \<and> retained sibling
      then str_nat (n + 1) # numbers_from (n + 1) rest
      else numbers_from n rest)"

text \<open>
  Every list visited continues the count: with \<open>n\<close> clauses collected before it, the
  items it keeps are those at the positions \<open>n\<close>, \<open>n + 1\<close>, ... and no other.
\<close>

fun continues_count :: "nat \<Rightarrow> node list \<Rightarrow> bool" where
  "continues_count n [] = True"
| "continues_count n (sibling # rest) =
     (if name sibling = Some ''ol''
      then kept_positions sibling = [n..<n + length (kept_positions sibling)]
           \<and> continues_count (n + length (kept_positions sibling)) rest
      else if name sibling = Some ''p'' \<and> retained sibling
      then continues_count (n + 1) rest
      else continues_count n rest)"

text \<open>
  A page with three headings. The first has paragraphs only, two of them long enough;
  the second differs from the first by a comment and has one paragraph; the third has
  no clause.
\<close>

definition scope_heading :: node where
  "scope_heading = Elem ''h2'' [] [Text (u ''Scope'')]"

definition repeated_heading :: node where
  "repeated_heading = Elem ''h2'' [] [Text (u ''Scope''), Comment (u ''x'')]"

definition repeated_following :: "node list" where
  "repeated_following =
     [Elem ''p'' [] [Text (u ''A third paragraph, long enough.'')],
      Elem ''h3'' [] [Text (u ''Contacts'')],
      Elem ''p'' [] [Text (u ''None'')]]"

definition scope_following :: "node list" where
  "scope_following =
     [Elem ''p'' [] [Text (u ''Too short'')],
      Elem ''p'' [] [Text (u ''This policy applies to all staff.'')],
      Text (u '' and ''),
      Elem ''div'' [] [Text (u ''A note that is not a paragraph.'')],
      Elem ''p'' [] [Text (u ''It also applies to contractors.'')],
      repeated_heading] @ repeated_following"

definition paragraph_body :: node where
  "paragraph_body =
     Elem ''body'' []
       (Elem ''h1'' [] [Text (u ''Travel Policy'')] # scope_heading # scope_following)"

definition paragraph_page :: node where
  "paragraph_page = Elem ''[document]'' [] [Elem ''html'' [] [paragraph_body]]"

definition scope_section :: section_rec where
  "scope_section =
     \<lparr>section_title = u ''Scope'',
      clauses = [\<lparr>clause_number = u ''1'',
                   clause_text = u ''This policy applies to all staff.'', subclauses = []\<rparr>,
                 \<lparr>clause_number = u ''2'',
                   clause_text = u ''It also applies to contractors.'',
                   subclauses = []\<rparr>]\<rparr>"

definition repeated_section :: section_rec where
  "repeated_section =
     \<lparr>section_title = u ''Scope'',
      clauses = [\<lparr>clause_number = u ''1'',
                   clause_text = u ''A third paragraph, long enough.'',
                   subclauses = []\<rparr>]\<rparr>"

text \<open>
  A page whose section is a list with a short first item, and a page whose section is
  a list of two long items followed by a paragraph.
\<close>

definition skipped_item_page :: node where
  "skipped_item_page =
     Elem ''[document]'' []
       [Elem ''body'' []
          [Elem ''h2'' [] [Text (u ''Scope'')], Elem ''ol'' [] [short_item, long_item]]]"

definition list_heading :: node where
  "list_heading = Elem ''h2'' [] [Text (u ''Rules'')]"

definition list_following :: "node list" where
  "list_following =
     [Elem ''ol'' [] [long_item, long_item],
      Elem ''p'' [] [Text (u ''A closing paragraph, long enough.'')]]"

definition list_body :: node where
  "list_body = Elem ''body'' [] (list_heading # list_following)"

definition list_page :: node where
  "list_page = Elem ''[document]'' [] [list_body]"

definition list_section :: section_rec where
  "list_section =
     \<lparr>section_title = u ''Rules'',
      clauses = [\<lparr>clause_number = u ''1'', clause_text = u ''This item is long enough.'',
                   subclauses = []\<rparr>,
                 \<lparr>clause_number = u ''2'', clause_text = u ''This item is long enough.'',
                   subclauses = []\<rparr>,
                 \<lparr>clause_number = u ''3'',
                   clause_text = u ''A closing paragraph, long enough.'',
                   subclauses = []\<rparr>]\<rparr>"

section \<open>Properties of the text normalizer\<close>

lemma set_replace_char:
  "set (replace_char old new s) = (set s - {old}) \<union> (if old \<in> set s then set new else {})"
  by (induction s) (auto simp: replace_char_def)

lemma clean_text_no_artifacts: "160 \<notin> set (clean_text s) \<and> 8203 \<notin> set (clean_text s)"
  by (simp add: clean_text_def Let_def set_replace_char)

lemma contains_prefix: "contains m (m @ post)"
  by (cases m; cases post; simp)

lemma dropWhile_head: "take 1 (dropWhile P xs) = [c] \<Longrightarrow> \<not> P c"
  by (induction xs) (auto split: if_splits)

lemma re_sub_runs_dropWhile_head:
  "take 1 (re_sub_runs is_space [32] (dropWhile is_space cs)) \<noteq> [32]"
proof (cases "dropWhile is_space cs")
  case Nil
  then show ?thesis
    by (metis re_sub_runs.simps(1) take_Nil list.distinct(1))
next
  case (Cons d ds)
  then have "\<not> is_space d"
    using dropWhile_head [of is_space cs d] by simp
  moreover from this have "d \<noteq> 32"
    by (auto simp: is_space_def)
  ultimately show ?thesis using Cons by simp
qed

lemma contains_two:
  "contains [a, b] (c # cs) = ((c = a \<and> take 1 cs = [b]) \<or> contains [a, b] cs)"
  by (cases cs) auto

lemma collapsed_no_double_space: "\<not> contains [32, 32] (re_sub_runs is_space [32] s)"
proof (induction is_space "[32::nat]" s rule: re_sub_runs.induct)
  case 1
  then show ?case by simp
next
  case (2 c cs)
  show ?case
  proof (cases "is_space c")
    case True
    with 2 re_sub_runs_dropWhile_head [of cs] show ?thesis
      by (simp add: contains_two del: contains.simps)
  next
    case False
    then have "c \<noteq> 32" by (auto simp: is_space_def)
    with False 2 show ?thesis
      by (simp add: contains_two del: contains.simps)
  qed
qed

lemma collapsed_spaces: "c \<in> set (re_sub_runs is_space [32] s) \<Longrightarrow> is_space c \<Longrightarrow> c = 32"
proof (induction is_space "[32::nat]" s rule: re_sub_runs.induct)
  case 1
  then show ?case by simp
next
  case (2 d ds)
  then show ?case by (auto split: if_splits)
qed

lemma collapsed_set: "set (re_sub_runs is_space [32] s) \<subseteq> insert 32 (set s)"
proof (induction is_space "[32::nat]" s rule: re_sub_runs.induct)
  case 1
  then show ?case by simp
next
  case (2 d ds)
  then show ?case by (auto split: if_splits dest: set_dropWhileD)
qed

lemma contains_iff: "m \<noteq> [] \<Longrightarrow> contains m s = (\<exists>a b. s = a @ m @ b)"
proof (induction s)
  case Nil
  then show ?case by simp
next
  case (Cons c cs)
  show ?case
  proof
    assume "contains m (c # cs)"
    then consider "take (length m) (c # cs) = m" | "contains m cs" by auto
    then show "\<exists>a b. c # cs = a @ m @ b"
    proof cases
      case 1
      then have "c # cs = [] @ m @ drop (length m) (c # cs)"
        by (metis append_Nil append_take_drop_id)
      then show ?thesis by blast
    next
      case 2
      with Cons obtain a b where "cs = a @ m @ b" by auto
      then have "c # cs = (c # a) @ m @ b" by simp
      then show ?thesis by blast
    qed
  next
    assume "\<exists>a b. c # cs = a @ m @ b"
    then obtain a b where ab: "c # cs = a @ m @ b" by blast
    show "contains m (c # cs)"
    proof (cases a)
      case Nil
      with ab have "c # cs = m @ b" by simp
      then show ?thesis by (metis contains_prefix)
    next
      case (Cons x xs)
      with ab have "cs = xs @ m @ b" by simp
      with Cons.IH [OF Cons.prems] have "contains m cs" by blast
      then show ?thesis by simp
    qed
  qed
qed

lemma strip_part: "\<exists>a b. s = a @ strip s @ b"
proof -
  have "s = takeWhile is_space s @ dropWhile is_space s" by simp
  moreover have "dropWhile is_space s
      = rev (dropWhile is_space (rev (dropWhile is_space s)))
        @ rev (takeWhile is_space (rev (dropWhile is_space s)))"
    by (metis rev_append rev_rev_ident takeWhile_dropWhile_id)
  ultimately show ?thesis
    unfolding strip_def by metis
qed

lemma strip_set: "set (strip s) \<subseteq> set s"
  using strip_part [of s] by (metis Un_iff set_append subsetI)

lemma strip_no_double_space:
  assumes "\<not> contains [32, 32] s"
  shows "\<not> contains [32, 32] (strip s)"
proof
  assume "contains [32, 32] (strip s)"
  then obtain a b where "strip s = a @ [32, 32] @ b"
    by (auto simp: contains_iff simp del: contains.simps)
  moreover obtain p q where "s = p @ strip s @ q"
    using strip_part by blast
  ultimately have "s = (p @ a) @ [32, 32] @ (b @ q)" by simp
  then have "contains [32, 32] s"
    using contains_iff [of "[32, 32]" s] by blast
  with assms show False by simp
qed

lemma replace_char_absent: "old \<notin> set s \<Longrightarrow> replace_char old new s = s"
  by (induction s) (auto simp: replace_char_def)

lemma clean_text_single_spaces:
  assumes "8203 \<notin> set s"
  shows "\<not> contains [32, 32] (clean_text s)"
proof (cases "s = []")
  case True
  then show ?thesis by (simp add: clean_text_def)
next
  case False
  let ?t = "strip (re_sub_runs is_space [32] s)"
  have "160 \<notin> set (re_sub_runs is_space [32] s)"
    using collapsed_spaces [of 160 s] by (auto simp: is_space_def)
  then have a: "160 \<notin> set ?t"
    using strip_set by blast
  have "8203 \<notin> set (re_sub_runs is_space [32] s)"
    using assms collapsed_set [of s] by auto
  then have b: "8203 \<notin> set ?t"
    using strip_set by blast
  from False a b have "clean_text s = ?t"
    by (simp add: clean_text_def Let_def replace_char_absent)
  then show ?thesis
    using strip_no_double_space [OF collapsed_no_double_space [of s]] by simp
qed

text \<open>
  Claim C3: for every input, the output of the text normalizer has no non-breaking
  space, no zero-width space and no two consecutive ASCII spaces. The first two parts
  hold (\<open>clean_text_no_artifacts\<close>), and so does the third for an input without
  zero-width space (\<open>clean_text_single_spaces\<close>). With one it fails: the zero-width
  space is not whitespace, so it separates two runs of whitespace, each collapsed to
  one space, and it is removed after the collapse. On \<open>a\<close>, space, U+200B, space,
  \<open>b\<close> the result is \<open>a\<close>, two spaces, \<open>b\<close>.
\<close>

theorem clean_text_leaves_two_spaces:
  "clean_text [97, 32, 8203, 32, 98] = [97, 32, 32, 98]"
  by (simp add: clean_text_def strip_def replace_char_def is_space_def)

section \<open>Properties of the clause extractor\<close>

lemma str_nat_digit: "n < 10 \<Longrightarrow> str_nat n = [48 + n]"
  by (simp add: str_nat.simps)

lemma clause_numbers_of_items:
  "map clause_number (concat (map clause_of_item ps)) =
   map (\<lambda>p. str_nat (fst p + 1)) (filter (\<lambda>p. retained (snd p)) ps)"
  by (induction ps) (auto simp: clause_of_item_def Let_def retained_def)

lemma retained_long_item: "retained long_item"
  by (simp add: retained_def long_item_def u_def clean_text_def strip_def replace_char_def
      is_space_def)

lemma not_retained_short_item: "\<not> retained short_item"
  by (simp add: retained_def short_item_def u_def clean_text_def strip_def replace_char_def
      is_space_def)

lemma five_items_direct:
  "find_all_direct [''li''] five_items =
   [long_item, short_item, long_item, long_item, long_item]"
  by (simp add: find_all_direct_def five_items_def named_def long_item_def short_item_def)

text \<open>
  Claim C1: the clauses of a list carry, in order, the numbers of the direct items
  that were kept, an item's number being its position among all the direct items, the
  skipped ones counted, plus one. With five direct items of which only the second is
  too short, the numbers are 1, 3, 4, 5.
\<close>

theorem list_clause_numbers_by_position:
  "map clause_number (extract_clauses_from_list ol_element) =
     map (\<lambda>p. str_nat (fst p + 1))
       (filter (\<lambda>p. retained (snd p)) (enumerate 0 (find_all_direct [''li''] ol_element)))
   \<and> (find_all_direct [''li''] ol_element = [a, b, c, d, e]
        \<and> retained a \<and> \<not> retained b \<and> retained c \<and> retained d \<and> retained e
      \<longrightarrow> map clause_number (extract_clauses_from_list ol_element) =
            [u ''1'', u ''3'', u ''4'', u ''5''])"
proof (intro conjI impI)
  show "map clause_number (extract_clauses_from_list ol_element) =
     map (\<lambda>p. str_nat (fst p + 1))
       (filter (\<lambda>p. retained (snd p)) (enumerate 0 (find_all_direct [''li''] ol_element)))"
    by (simp add: extract_clauses_from_list_def clause_numbers_of_items)
next
  assume "find_all_direct [''li''] ol_element = [a, b, c, d, e]
        \<and> retained a \<and> \<not> retained b \<and> retained c \<and> retained d \<and> retained e"
  then show "map clause_number (extract_clauses_from_list ol_element) =
            [u ''1'', u ''3'', u ''4'', u ''5'']"
    by (simp add: extract_clauses_from_list_def clause_of_item_def Let_def retained_def
        str_nat_digit u_def)
qed

theorem list_clause_numbers_by_position_witness:
  "find_all_direct [''li''] five_items =
     [long_item, short_item, long_item, long_item, long_item]
   \<and> retained long_item \<and> \<not> retained short_item
   \<and> map clause_number (extract_clauses_from_list five_items) =
       [u ''1'', u ''3'', u ''4'', u ''5'']"
proof -
  have h: "find_all_direct [''li''] five_items =
        [long_item, short_item, long_item, long_item, long_item]
      \<and> retained long_item \<and> \<not> retained short_item \<and> retained long_item
      \<and> retained long_item \<and> retained long_item"
    by (simp add: retained_long_item not_retained_short_item five_items_direct)
  have "map clause_number (extract_clauses_from_list five_items) =
      [u ''1'', u ''3'', u ''4'', u ''5'']"
    using list_clause_numbers_by_position
      [of five_items long_item short_item long_item long_item long_item] h
    by blast
  with h show ?thesis by blast
qed

section \<open>Properties of the driver\<close>

lemma process_link_counts:
  "success_count (process_link w d st url) + failed_count (process_link w d st url)
     = success_count st + failed_count st + 1
   \<and> success_count st \<le> success_count (process_link w d st url)
   \<and> failed_count st \<le> failed_count (process_link w d st url)
   \<and> attempted (process_link w d st url) = attempted st @ [url]"
  by (simp add: process_link_def count_failed_def Let_def
      split: sum.splits option.splits list.splits prod.splits)

lemma process_link_raise:
  "scrape w url = Inl e \<Longrightarrow>
   failed_count (process_link w d st url) = failed_count st + 1
   \<and> success_count (process_link w d st url) = success_count st"
  by (simp add: process_link_def count_failed_def Let_def)

lemma foldl_process_link:
  "success_count (foldl (process_link w d) st urls)
     + failed_count (foldl (process_link w d) st urls)
     = success_count st + failed_count st + length urls
   \<and> attempted (foldl (process_link w d) st urls) = attempted st @ urls"
proof (induction urls arbitrary: st)
  case Nil
  then show ?case by simp
next
  case (Cons url urls)
  show ?case
    using Cons.IH [of "process_link w d st url"] process_link_counts [of w d st url]
    by simp
qed

lemma three_links_run:
  "scrape_all_policies three_links_world Map.empty (u ''out'') m =
     (let links = limit_links m [u ''a'', u ''b'', u ''c''];
          st = foldl (process_link three_links_world (u ''out'')) (initial_state Map.empty) links
      in (\<lparr>success = success_count st, failed = failed_count st, total = length links\<rparr>, st))"
  by (simp add: scrape_all_policies_def Let_def three_links_world_def)

text \<open>
  For a positive maximum the list is cut to its first \<open>n\<close> links, in order.
\<close>

lemma positive_maximum_truncates:
  assumes "0 < n" and "discovered w \<noteq> []"
  shows "attempted (snd (scrape_all_policies w fs d (Some n))) = take (nat n) (discovered w)"
    and "total (fst (scrape_all_policies w fs d (Some n))) = min (nat n) (length (discovered w))"
  using assms foldl_process_link [of w d "initial_state fs" "take (nat n) (discovered w)"]
  by (simp_all add: scrape_all_policies_def Let_def initial_state_def limit_links_def
      slice_to_def min_def)

text \<open>
  Claim C7: with a maximum \<open>N\<close> configured, the driver processes the first
  \<open>min N (length L)\<close> links and reports that count, so at most \<open>N\<close>. The parameter is
  documented as the maximum number of policies to scrape, with \<open>None\<close> for all; but the
  test of line 267 is on the truth of the value, and \<open>0\<close> is false there. With the
  maximum \<open>0\<close> and three links found, all three are processed and the total is 3.
\<close>

theorem zero_maximum_processes_every_link:
  "total (fst (scrape_all_policies three_links_world Map.empty (u ''out'') (Some 0))) = 3
   \<and> attempted (snd (scrape_all_policies three_links_world Map.empty (u ''out'') (Some 0)))
       = [u ''a'', u ''b'', u ''c'']"
  using foldl_process_link [of three_links_world "u ''out''" "initial_state Map.empty"
      "[u ''a'', u ''b'', u ''c'']"]
  by (simp add: three_links_run limit_links_def Let_def initial_state_def)

text \<open>
  Claim C9: when at least one link was found, the summary satisfies
  \<open>success + failed = total\<close>, the total being the number of links left after the cut,
  which are the links processed; every turn of the loop adds one to exactly one of the
  two counters, and to \<open>failed\<close> when the extraction raises.
\<close>

theorem summary_counts_add_up:
  "discovered w \<noteq> [] \<Longrightarrow>
   success (fst (scrape_all_policies w fs d m)) + failed (fst (scrape_all_policies w fs d m))
     = total (fst (scrape_all_policies w fs d m))
   \<and> total (fst (scrape_all_policies w fs d m)) = length (limit_links m (discovered w))
   \<and> attempted (snd (scrape_all_policies w fs d m)) = limit_links m (discovered w)
   \<and> (\<forall>st url. success_count (process_link w d st url) + failed_count (process_link w d st url)
          = success_count st + failed_count st + 1
        \<and> success_count st \<le> success_count (process_link w d st url)
        \<and> failed_count st \<le> failed_count (process_link w d st url)
        \<and> (\<forall>e. scrape w url = Inl e \<longrightarrow>
              failed_count (process_link w d st url) = failed_count st + 1))"
  using foldl_process_link [of w d "initial_state fs" "limit_links m (discovered w)"]
    process_link_counts [of w d] process_link_raise [of w _ _ d]
  by (simp add: scrape_all_policies_def Let_def initial_state_def)

theorem summary_counts_add_up_witness:
  "discovered three_links_world \<noteq> []
   \<and> fst (scrape_all_policies three_links_world Map.empty (u ''out'') None)
       = \<lparr>success = 1, failed = 2, total = 3\<rparr>
   \<and> success (fst (scrape_all_policies three_links_world Map.empty (u ''out'') None))
       + failed (fst (scrape_all_policies three_links_world Map.empty (u ''out'') None))
       = total (fst (scrape_all_policies three_links_world Map.empty (u ''out'') None))
   \<and> scrape three_links_world (u ''a'') = Inl OtherException
   \<and> failed_count (process_link three_links_world (u ''out'') (initial_state Map.empty) (u ''a''))
       = 1"
proof -
  have h: "discovered three_links_world \<noteq> []"
    by (simp add: three_links_world_def)
  have r: "fst (scrape_all_policies three_links_world Map.empty (u ''out'') None)
       = \<lparr>success = 1, failed = 2, total = 3\<rparr>"
    by (simp add: scrape_all_policies_def Let_def initial_state_def three_links_world_def
        limit_links_def process_link_def count_failed_def u_def stored_policy_def
        empty_policy_def)
  have e: "scrape three_links_world (u ''a'') = Inl OtherException"
    by (simp add: three_links_world_def)
  have f: "failed_count (initial_state Map.empty) = 0"
    by (simp add: initial_state_def)
  note t = summary_counts_add_up [OF h, of Map.empty "u ''out''" None]
  from t have "success (fst (scrape_all_policies three_links_world Map.empty (u ''out'') None))
       + failed (fst (scrape_all_policies three_links_world Map.empty (u ''out'') None))
       = total (fst (scrape_all_policies three_links_world Map.empty (u ''out'') None))"
    by blast
  moreover from t e f
  have "failed_count (process_link three_links_world (u ''out'') (initial_state Map.empty)
          (u ''a'')) = 1"
    by simp
  ultimately show ?thesis using h r e by blast
qed

section \<open>Properties of the file name\<close>

lemma dropWhile_all: "list_all P xs \<Longrightarrow> dropWhile P xs = []"
  by (induction xs) auto

lemma re_sub_runs_all:
  "s \<noteq> [] \<Longrightarrow> list_all P s \<Longrightarrow> re_sub_runs P rep s = rep"
  by (cases s) (simp_all add: dropWhile_all)

lemma re_sub_runs_none: "list_all (\<lambda>c. \<not> P c) s \<Longrightarrow> re_sub_runs P rep s = s"
  by (induction s) auto

lemma dropWhile_append_stop:
  "\<not> P c \<Longrightarrow> dropWhile P (a @ c # b) = dropWhile P a @ c # b"
  by (induction a) auto

lemma re_sub_runs_append:
  "\<not> P c \<Longrightarrow>
   re_sub_runs P rep (a @ c # b) = re_sub_runs P rep a @ c # re_sub_runs P rep b"
proof (induction P rep a rule: re_sub_runs.induct)
  case (1 P rep)
  then show ?case by simp
next
  case (2 P rep x xs)
  then show ?case by (simp add: dropWhile_append_stop)
qed

lemma re_sub_runs_all_of:
  "list_all Q rep \<Longrightarrow> list_all (\<lambda>c. P c \<or> Q c) s \<Longrightarrow> list_all Q (re_sub_runs P rep s)"
proof (induction P rep s rule: re_sub_runs.induct)
  case (1 P rep)
  then show ?case by simp
next
  case (2 P rep c cs)
  show ?case
  proof (cases "P c")
    case True
    have "list_all (\<lambda>c. P c \<or> Q c) (dropWhile P cs)"
      using "2.prems"(2) by (auto simp: list_all_iff dest: set_dropWhileD)
    with True 2 show ?thesis by simp
  next
    case False
    with 2 show ?thesis by simp
  qed
qed


lemma title_codes: "u ''Staff Travel & Expenses: Policy!'' =
  [83,116,97,102,102,32,84,114,97,118,101,108,32,38,32,69,120,112,101,110,115,101,115,58,32,80,111,108,105,99,121,33]"
  by (simp add: u_def)

lemma name_codes: "u ''Staff_Travel_Expenses_Policy.json'' =
  [83,116,97,102,102,95,84,114,97,118,101,108,95,69,120,112,101,110,115,101,115,95,80,111,108,105,99,121,46,106,115,111,110]"
  by (simp add: u_def)

lemma json_codes: "u ''.json'' = [46,106,115,111,110]"
  by (simp add: u_def)

lemma filename_example:
  "policy_filename db (u ''Staff Travel & Expenses: Policy!'')
     = u ''Staff_Travel_Expenses_Policy.json''"
  unfolding title_codes name_codes
  by (simp add: policy_filename_def json_codes is_word_def is_space_def is_separator_def)

lemma is_word_underscore: "is_word db 95"
  by (simp add: is_word_def)

lemma kept_chars:
  "list_all (\<lambda>c. is_separator c \<or> is_word db c)
     (filter (\<lambda>c. is_word db c \<or> is_space c \<or> c = 45) ttl)"
  by (induction ttl) (simp_all add: is_separator_def)

lemma list_all_take: "list_all Q xs \<Longrightarrow> list_all Q (take n xs)"
  by (induction xs arbitrary: n) (simp_all add: take_Cons split: nat.splits)

lemma policy_filename_safe:
  "list_all (is_word db) (take 80 (re_sub_runs is_separator [95]
      (filter (\<lambda>c. is_word db c \<or> is_space c \<or> c = 45) ttl)))"
  by (rule list_all_take, rule re_sub_runs_all_of) (simp_all add: is_word_underscore kept_chars)

text \<open>
  Claim C8: the title \<open>Staff Travel & Expenses: Policy!\<close> gives the file name
  \<open>Staff_Travel_Expenses_Policy.json\<close>. In general the name is the title without the
  characters that are neither word characters nor whitespace nor hyphens, with every
  run of whitespace and hyphens turned into one underscore (a run alone gives one
  underscore, any other character stays and separates runs), cut to 80 characters, with
  \<open>.json\<close> appended; the base so obtained has at most 80 characters, all of them word
  characters.
\<close>

theorem filename_derivation:
  "policy_filename db (u ''Staff Travel & Expenses: Policy!'')
     = u ''Staff_Travel_Expenses_Policy.json''
   \<and> policy_filename db ttl =
       take 80 (re_sub_runs is_separator [95]
         (filter (\<lambda>c. is_word db c \<or> is_space c \<or> c = 45) ttl)) @ u ''.json''
   \<and> length (policy_filename db ttl) \<le> 80 + 5
   \<and> list_all (is_word db) (take (length (policy_filename db ttl) - 5) (policy_filename db ttl))
   \<and> re_sub_runs is_separator [95] [] = []
   \<and> (s \<noteq> [] \<and> list_all is_separator s \<longrightarrow> re_sub_runs is_separator [95] s = [95])
   \<and> (\<not> is_separator c \<longrightarrow>
        re_sub_runs is_separator [95] (a @ c # b) =
        re_sub_runs is_separator [95] a @ c # re_sub_runs is_separator [95] b)"
proof (intro conjI impI)
  show "policy_filename db (u ''Staff Travel & Expenses: Policy!'')
     = u ''Staff_Travel_Expenses_Policy.json''"
    by (rule filename_example)
  show "policy_filename db ttl =
       take 80 (re_sub_runs is_separator [95]
         (filter (\<lambda>c. is_word db c \<or> is_space c \<or> c = 45) ttl)) @ u ''.json''"
    by (simp add: policy_filename_def Let_def)
  show "length (policy_filename db ttl) \<le> 80 + 5"
    by (simp add: policy_filename_def Let_def json_codes)
  show "list_all (is_word db) (take (length (policy_filename db ttl) - 5) (policy_filename db ttl))"
  proof -
    define base where "base = take 80 (re_sub_runs is_separator [95]
         (filter (\<lambda>c. is_word db c \<or> is_space c \<or> c = 45) ttl))"
    have "policy_filename db ttl = base @ u ''.json''"
      by (simp add: policy_filename_def Let_def base_def)
    then have "take (length (policy_filename db ttl) - 5) (policy_filename db ttl) = base"
      by (simp add: json_codes)
    then show ?thesis
      using policy_filename_safe [of db ttl] by (simp add: base_def)
  qed
  show "re_sub_runs is_separator [95] [] = []"
    by simp
  show "re_sub_runs is_separator [95] s = [95]" if "s \<noteq> [] \<and> list_all is_separator s"
    using that by (simp add: re_sub_runs_all)
  show "re_sub_runs is_separator [95] (a @ c # b) =
        re_sub_runs is_separator [95] a @ c # re_sub_runs is_separator [95] b"
    if "\<not> is_separator c"
    using that by (rule re_sub_runs_append)
qed

theorem filename_derivation_witness:
  "policy_filename ascii_db (u ''Staff Travel & Expenses: Policy!'')
     = u ''Staff_Travel_Expenses_Policy.json''
   \<and> [32, 45] \<noteq> [] \<and> list_all is_separator [32, 45]
   \<and> re_sub_runs is_separator [95] [32, 45] = [95]
   \<and> \<not> is_separator 98
   \<and> re_sub_runs is_separator [95] ([97, 32] @ 98 # [45, 45]) = [97, 95, 98, 95]"
proof -
  have h1: "[32, 45] \<noteq> [] \<and> list_all is_separator [32, 45]"
    by (simp add: is_separator_def is_space_def)
  have h2: "\<not> is_separator 98"
    by (simp add: is_separator_def is_space_def)
  note t = filename_derivation [of ascii_db "[]" "[32, 45]" 98 "[97, 32]" "[45, 45]"]
  note c = t [THEN conjunct2, THEN conjunct2, THEN conjunct2, THEN conjunct2, THEN conjunct2]
  have e: "policy_filename ascii_db (u ''Staff Travel & Expenses: Policy!'')
     = u ''Staff_Travel_Expenses_Policy.json''"
    by (rule t [THEN conjunct1])
  have r: "re_sub_runs is_separator [95] [32, 45] = [95]"
    by (rule c [THEN conjunct1, THEN mp, OF h1])
  have "re_sub_runs is_separator [95] ([97, 32] @ 98 # [45, 45]) =
        re_sub_runs is_separator [95] [97, 32] @ 98 # re_sub_runs is_separator [95] [45, 45]"
    by (rule c [THEN conjunct2, THEN mp, OF h2])
  then have a: "re_sub_runs is_separator [95] ([97, 32] @ 98 # [45, 45]) = [97, 95, 98, 95]"
    by (simp add: is_separator_def is_space_def)
  show ?thesis
    by (rule conjI [OF e conjI [OF h1 [THEN conjunct1] conjI [OF h1 [THEN conjunct2]
          conjI [OF r conjI [OF h2 a]]]]])
qed

lemma wordless_filter:
  "\<not> list_ex (is_word db) ttl \<Longrightarrow>
   filter (\<lambda>c. is_word db c \<or> is_space c \<or> c = 45) ttl = filter is_separator ttl"
  by (induction ttl) (auto simp: is_separator_def)

lemma wordless_filename:
  assumes "\<not> list_ex (is_word db) ttl"
  shows "policy_filename db ttl =
         (if list_ex is_separator ttl then u ''_.json'' else u ''.json'')"
proof (cases "list_ex is_separator ttl")
  case True
  then have "filter is_separator ttl \<noteq> []"
    by (auto simp: list_ex_iff filter_empty_conv)
  moreover have "list_all is_separator (filter is_separator ttl)"
    by (simp add: list_all_iff)
  ultimately have "re_sub_runs is_separator [95] (filter is_separator ttl) = [95]"
    by (rule re_sub_runs_all)
  with True assms show ?thesis
    by (simp add: policy_filename_def Let_def wordless_filter u_def)
next
  case False
  then have "filter is_separator ttl = []"
    by (auto simp: list_ex_iff filter_empty_conv)
  with False assms show ?thesis
    by (simp add: policy_filename_def Let_def wordless_filter)
qed

text \<open>
  Claim C10, as stated: a title without any word character gives the file name
  \<open>.json\<close>. The hyphen is not a word character, but it is kept by the first
  substitution and turned into an underscore by the second: the title \<open>-\<close> gives
  \<open>_.json\<close>.
\<close>

theorem hyphen_title_filename:
  "\<not> list_ex (is_word ascii_db) (u ''-'')
   \<and> policy_filename ascii_db (u ''-'') = u ''_.json''
   \<and> policy_filename ascii_db (u ''-'') \<noteq> u ''.json''"
  by (simp add: policy_filename_def u_def is_word_def is_space_def is_separator_def)

lemma stored_policy_encodable: "encodable (titled (u ''!?''))"
  by (simp add: encodable_def policy_strings_def part_strings_def section_strings_def
      clause_strings_def titled_def stored_policy_def u_def is_surrogate_def)

lemma surrogate_title_not_encodable: "\<not> encodable (titled [55296])"
  by (simp add: encodable_def policy_strings_def titled_def is_surrogate_def)

text \<open>
  Claim C10, amended: for a title without any word character the derivation still
  gives a name, which is \<open>.json\<close> when the title has no whitespace and no hyphen
  either and \<open>_.json\<close> when it has one; the base is not guaranteed to be non-empty.
  The document is written under that name in the output directory when the path can
  be opened and every string of the document can be encoded; when a string has a
  surrogate the call raises and leaves the file cut short, and when the path cannot
  be opened it raises and the files are as they were.
\<close>

theorem wordless_title_filename:
  "\<not> list_ex (is_word db) (title (metadata pol)) \<Longrightarrow>
   policy_filename db (title (metadata pol)) =
     (if list_ex is_separator (title (metadata pol)) then u ''_.json'' else u ''.json'')
   \<and> (open_error (path_join output_dir
          (if list_ex is_separator (title (metadata pol)) then u ''_.json'' else u ''.json''))
          = None
        \<and> encodable pol \<longrightarrow>
        save_policy_json db open_error pol output_dir fs =
          (Inr (path_join output_dir
                  (if list_ex is_separator (title (metadata pol)) then u ''_.json''
                   else u ''.json'')),
           fs(path_join output_dir
                (if list_ex is_separator (title (metadata pol)) then u ''_.json''
                 else u ''.json'') \<mapsto> Complete pol)))
   \<and> (open_error (path_join output_dir
          (if list_ex is_separator (title (metadata pol)) then u ''_.json'' else u ''.json''))
          = None
        \<and> \<not> encodable pol \<longrightarrow>
        save_policy_json db open_error pol output_dir fs =
          (Inl UnicodeEncodeError,
           fs(path_join output_dir
                (if list_ex is_separator (title (metadata pol)) then u ''_.json''
                 else u ''.json'') \<mapsto> Truncated pol)))
   \<and> (open_error (path_join output_dir
          (if list_ex is_separator (title (metadata pol)) then u ''_.json'' else u ''.json''))
          = Some e
        \<longrightarrow> save_policy_json db open_error pol output_dir fs = (Inl e, fs))"
proof -
  assume "\<not> list_ex (is_word db) (title (metadata pol))"
  then have f: "policy_filename db (title (metadata pol)) =
     (if list_ex is_separator (title (metadata pol)) then u ''_.json'' else u ''.json'')"
    by (rule wordless_filename)
  show ?thesis
    unfolding save_policy_json_def Let_def f by simp
qed

theorem wordless_title_filename_witness:
  "\<not> list_ex (is_word ascii_db) (title (metadata (titled (u ''!?''))))
   \<and> policy_filename ascii_db (title (metadata (titled (u ''!?'')))) = u ''.json''
   \<and> encodable (titled (u ''!?''))
   \<and> save_policy_json ascii_db (\<lambda>p. None) (titled (u ''!?'')) (u ''out'') Map.empty =
       (Inr (path_join (u ''out'') (u ''.json'')),
        [path_join (u ''out'') (u ''.json'') \<mapsto> Complete (titled (u ''!?''))])
   \<and> path_join (u ''out'') (u ''.json'') = u ''out/.json''
   \<and> \<not> list_ex (is_word ascii_db) (title (metadata (titled [55296])))
   \<and> \<not> encodable (titled [55296])
   \<and> save_policy_json ascii_db (\<lambda>p. None) (titled [55296]) (u ''out'') Map.empty =
       (Inl UnicodeEncodeError,
        [path_join (u ''out'') (u ''.json'') \<mapsto> Truncated (titled [55296])])
   \<and> save_policy_json ascii_db (\<lambda>p. Some OSError) (titled (u ''!?'')) (u ''out'') Map.empty =
       (Inl OSError, Map.empty)"
proof -
  have t: "title (metadata (titled (u ''!?''))) = [33, 63]"
    by (simp add: titled_def u_def)
  have t': "title (metadata (titled [55296])) = [55296]"
    by (simp add: titled_def)
  have h: "\<not> list_ex (is_word ascii_db) (title (metadata (titled (u ''!?''))))"
    unfolding t by (simp add: is_word_def)
  have h': "\<not> list_ex (is_word ascii_db) (title (metadata (titled [55296])))"
    unfolding t' by (simp add: is_word_def ascii_db_def)
  have s: "list_ex is_separator (title (metadata (titled (u ''!?'')))) = False"
    unfolding t by (simp add: is_separator_def is_space_def)
  have s': "list_ex is_separator (title (metadata (titled [55296]))) = False"
    unfolding t' by (simp add: is_separator_def is_space_def)
  have p: "path_join (u ''out'') (u ''.json'') = u ''out/.json''"
    by (simp add: path_join_def u_def)
  note w = wordless_title_filename [OF h, where output_dir = "u ''out''" and fs = Map.empty,
      unfolded s if_False]
  note w' = wordless_title_filename [OF h', where output_dir = "u ''out''"
      and fs = Map.empty and open_error = "\<lambda>p. None", unfolded s' if_False]
  have f: "policy_filename ascii_db (title (metadata (titled (u ''!?'')))) = u ''.json''"
    by (rule w [THEN conjunct1])
  have a: "save_policy_json ascii_db (\<lambda>p. None) (titled (u ''!?'')) (u ''out'') Map.empty =
       (Inr (path_join (u ''out'') (u ''.json'')),
        [path_join (u ''out'') (u ''.json'') \<mapsto> Complete (titled (u ''!?''))])"
    by (rule w [where open_error = "\<lambda>p. None", THEN conjunct2, THEN conjunct1, THEN mp])
       (simp add: stored_policy_encodable)
  have b: "save_policy_json ascii_db (\<lambda>p. None) (titled [55296]) (u ''out'') Map.empty =
       (Inl UnicodeEncodeError,
        [path_join (u ''out'') (u ''.json'') \<mapsto> Truncated (titled [55296])])"
    by (rule w' [THEN conjunct2, THEN conjunct2, THEN conjunct1, THEN mp])
       (simp add: surrogate_title_not_encodable)
  have c: "save_policy_json ascii_db (\<lambda>p. Some OSError) (titled (u ''!?'')) (u ''out'')
       Map.empty = (Inl OSError, Map.empty)"
    by (rule w [where open_error = "\<lambda>p. Some OSError" and e = OSError, THEN conjunct2,
          THEN conjunct2, THEN conjunct2, THEN mp])
       simp
  show ?thesis
    by (intro conjI h f stored_policy_encodable a p h' surrogate_title_not_encodable b c)
qed

section \<open>Properties of the date scan\<close>

lemma match_digits_sound:
  "match_digits db n k s = Some m \<Longrightarrow>
   \<exists>r. m = take n s @ r \<and> k (drop n s) = Some r \<and> n \<le> length s
       \<and> list_all (is_digit db) (take n s)"
  by (auto simp: match_digits_def digits_at_def split: if_splits)

lemma match_digits12_sound:
  "match_digits12 db k s = Some m \<Longrightarrow>
   \<exists>n r. (n = 1 \<or> n = 2) \<and> m = take n s @ r \<and> k (drop n s) = Some r \<and> n \<le> length s
       \<and> list_all (is_digit db) (take n s)"
  unfolding match_digits12_def
  by (cases "match_digits db 2 k s") (auto dest!: match_digits_sound)

lemma match_sep_sound:
  "match_sep k s = Some m \<Longrightarrow> \<exists>c cs r. s = c # cs \<and> is_sep c \<and> m = c # r \<and> k cs = Some r"
  by (cases s) (auto simp: match_sep_def split: if_splits)

lemma date_shapedI:
  assumes "length A = i" "i = 1 \<or> i = 2" "length B = j" "j = 1 \<or> j = 2" "length Y = 4"
    and "list_all (is_digit db) A" "list_all (is_digit db) B" "list_all (is_digit db) Y"
    and "is_sep c1" "is_sep c2"
  shows "date_shaped db (A @ c1 # B @ c2 # Y)"
proof -
  have "length (A @ c1 # B @ c2 # Y) = i + j + 6
      \<and> list_all (is_digit db) (take i (A @ c1 # B @ c2 # Y))
      \<and> is_sep ((A @ c1 # B @ c2 # Y) ! i)
      \<and> list_all (is_digit db) (take j (drop (i + 1) (A @ c1 # B @ c2 # Y)))
      \<and> is_sep ((A @ c1 # B @ c2 # Y) ! (i + j + 1))
      \<and> list_all (is_digit db) (drop (i + j + 2) (A @ c1 # B @ c2 # Y))"
    using assms(1,3,5,6,7,8,9,10) by (simp add: nth_append)
  with assms(2,4) show ?thesis
    unfolding date_shaped_def by fastforce
qed

lemma match_date_sound:
  assumes "match_date db s = Some m"
  shows "date_shaped db m \<and> (\<exists>post. s = m @ post)"
proof -
  from assms obtain i r1 where i: "i = 1 \<or> i = 2" "m = take i s @ r1" "i \<le> length s"
      "list_all (is_digit db) (take i s)"
    and k1: "match_sep (match_digits12 db (match_sep (match_digits db 4 match_end))) (drop i s)
             = Some r1"
    unfolding match_date_def by (blast dest: match_digits12_sound)
  from k1 obtain c1 s1 r2 where c1: "drop i s = c1 # s1" "is_sep c1" "r1 = c1 # r2"
    and k2: "match_digits12 db (match_sep (match_digits db 4 match_end)) s1 = Some r2"
    by (blast dest: match_sep_sound)
  from k2 obtain j r3 where j: "j = 1 \<or> j = 2" "r2 = take j s1 @ r3" "j \<le> length s1"
      "list_all (is_digit db) (take j s1)"
    and k3: "match_sep (match_digits db 4 match_end) (drop j s1) = Some r3"
    by (blast dest: match_digits12_sound)
  from k3 obtain c2 s2 r4 where c2: "drop j s1 = c2 # s2" "is_sep c2" "r3 = c2 # r4"
    and k4: "match_digits db 4 match_end s2 = Some r4"
    by (blast dest: match_sep_sound)
  from k4 obtain r5 where y: "r4 = take 4 s2 @ r5" "match_end (drop 4 s2) = Some r5"
      "4 \<le> length s2" "list_all (is_digit db) (take 4 s2)"
    by (blast dest: match_digits_sound)
  from y(2) have r5: "r5 = []" by (simp add: match_end_def)
  have m: "m = take i s @ c1 # take j s1 @ c2 # take 4 s2"
    using i(2) c1(3) j(2) c2(3) y(1) r5 by simp
  have shaped: "date_shaped db m"
    unfolding m
    by (rule date_shapedI [where i = i and j = j])
       (use i j y c1 c2 in \<open>simp_all\<close>)
  have "s = take i s @ drop i s" by simp
  also have "drop i s = c1 # s1" by (rule c1(1))
  also have "s1 = take j s1 @ drop j s1" by simp
  also have "drop j s1 = c2 # s2" by (rule c2(1))
  also have "s2 = take 4 s2 @ drop 4 s2" by simp
  finally have "s = m @ drop 4 s2"
    unfolding m by simp
  with shaped show ?thesis by blast
qed


lemma match_date_Nil: "match_date db [] = None"
  by (simp add: match_date_def match_digits12_def match_digits_def digits_at_def)

lemma date_shaped_length: "date_shaped db m \<Longrightarrow> 8 \<le> length m"
  unfolding date_shaped_def by fastforce

lemma re_search_date_sound:
  "re_search_date db s = Some m \<Longrightarrow> date_shaped db m \<and> contains m s \<and> m \<noteq> []"
proof (induction s)
  case Nil
  then show ?case by (simp add: match_date_Nil)
next
  case (Cons c cs)
  show ?case
  proof (cases "match_date db (c # cs)")
    case None
    with Cons.prems have "re_search_date db cs = Some m" by simp
    with Cons.IH have "date_shaped db m \<and> contains m cs \<and> m \<noteq> []" by blast
    then show ?thesis by simp
  next
    case (Some m')
    with Cons.prems have "m' = m" by simp
    with Some have "date_shaped db m \<and> (\<exists>post. c # cs = m @ post)"
      using match_date_sound [of db "c # cs" m] by simp
    moreover from this have "contains m (c # cs)"
      using contains_prefix [of m] by metis
    moreover from calculation have "m \<noteq> []"
      using date_shaped_length [of db m] by auto
    ultimately show ?thesis by blast
  qed
qed

lemma date_step_fst:
  "fst (date_step db dates text) =
     (if approval_keyword db text
      then (case re_search_date db text of Some m \<Rightarrow> m | None \<Rightarrow> fst dates)
      else fst dates)"
  by (simp add: date_step_def Let_def)

lemma date_step_snd:
  "snd (date_step db dates text) =
     (if review_keyword db text
      then (case re_search_date db text of Some m \<Rightarrow> m | None \<Rightarrow> snd dates)
      else snd dates)"
  by (simp add: date_step_def Let_def)

lemma scan_keeps_approval:
  "\<not> list_ex (sets_approval db) after \<Longrightarrow>
   fst (foldl (date_step db) dates after) = fst dates"
proof (induction after arbitrary: dates)
  case Nil
  then show ?case by simp
next
  case (Cons t ts)
  from Cons.prems have a: "\<not> sets_approval db t" and b: "\<not> list_ex (sets_approval db) ts"
    by simp_all
  from a have "fst (date_step db dates t) = fst dates"
    by (auto simp: date_step_fst sets_approval_def split: option.splits)
  moreover have "fst (foldl (date_step db) (date_step db dates t) ts)
      = fst (date_step db dates t)"
    by (rule Cons.IH [OF b])
  ultimately show ?case by simp
qed

lemma scan_keeps_review:
  "\<not> list_ex (sets_review db) after \<Longrightarrow>
   snd (foldl (date_step db) dates after) = snd dates"
proof (induction after arbitrary: dates)
  case Nil
  then show ?case by simp
next
  case (Cons t ts)
  from Cons.prems have a: "\<not> sets_review db t" and b: "\<not> list_ex (sets_review db) ts"
    by simp_all
  from a have "snd (date_step db dates t) = snd dates"
    by (auto simp: date_step_snd sets_review_def split: option.splits)
  moreover have "snd (foldl (date_step db) (date_step db dates t) ts)
      = snd (date_step db dates t)"
    by (rule Cons.IH [OF b])
  ultimately show ?case by simp
qed

lemma scan_last_approval:
  assumes "approval_keyword db fragment" and "re_search_date db fragment = Some d"
    and "\<not> list_ex (sets_approval db) after"
  shows "fst (scan_dates db (before @ [fragment] @ after)) = d"
  using assms scan_keeps_approval [of db after]
  by (simp add: scan_dates_def date_step_fst)

lemma scan_last_review:
  assumes "review_keyword db fragment" and "re_search_date db fragment = Some d"
    and "\<not> list_ex (sets_review db) after"
  shows "snd (scan_dates db (before @ [fragment] @ after)) = d"
  using assms scan_keeps_review [of db after]
  by (simp add: scan_dates_def date_step_snd)

lemma scraped_approval_date:
  "map_option (\<lambda>pol. approval_date (metadata pol))
     (scrape_policy_document db today now (Some soup) url)
   = Some (fst (scan_dates db (stripped_strings soup)))"
  by (simp add: scrape_policy_document_def Let_def)

lemma scraped_review_date:
  "map_option (\<lambda>pol. review_date (metadata pol))
     (scrape_policy_document db today now (Some soup) url)
   = Some (if snd (scan_dates db (stripped_strings soup)) \<noteq> []
           then snd (scan_dates db (stripped_strings soup)) else today)"
  by (simp add: scrape_policy_document_def Let_def)

text \<open>
  Claim C4: when several fragments, in document order, have an approval keyword and a
  match of the date pattern, the approval date of the document is the date of the last
  of them, whatever came before it; likewise for the review keywords and the review
  date. The scan never leaves the loop early.
\<close>

theorem last_matching_fragment_wins:
  "(stripped_strings soup = before @ [fragment] @ after
      \<and> approval_keyword db fragment \<and> re_search_date db fragment = Some d
      \<and> \<not> list_ex (sets_approval db) after
    \<longrightarrow> map_option (\<lambda>pol. approval_date (metadata pol))
          (scrape_policy_document db today now (Some soup) url) = Some d)
   \<and> (stripped_strings soup = before @ [fragment] @ after
      \<and> review_keyword db fragment \<and> re_search_date db fragment = Some d
      \<and> \<not> list_ex (sets_review db) after
    \<longrightarrow> map_option (\<lambda>pol. review_date (metadata pol))
          (scrape_policy_document db today now (Some soup) url) = Some d)"
proof (intro conjI impI)
  assume h: "stripped_strings soup = before @ [fragment] @ after
      \<and> approval_keyword db fragment \<and> re_search_date db fragment = Some d
      \<and> \<not> list_ex (sets_approval db) after"
  then have "fst (scan_dates db (stripped_strings soup)) = d"
    using scan_last_approval [of db fragment d after before] by simp
  then show "map_option (\<lambda>pol. approval_date (metadata pol))
          (scrape_policy_document db today now (Some soup) url) = Some d"
    by (simp only: scraped_approval_date)
next
  assume h: "stripped_strings soup = before @ [fragment] @ after
      \<and> review_keyword db fragment \<and> re_search_date db fragment = Some d
      \<and> \<not> list_ex (sets_review db) after"
  then have "snd (scan_dates db (stripped_strings soup)) = d"
    using scan_last_review [of db fragment d after before] by simp
  moreover from h have "d \<noteq> []"
    using re_search_date_sound [of db fragment d] by simp
  ultimately show "map_option (\<lambda>pol. review_date (metadata pol))
          (scrape_policy_document db today now (Some soup) url) = Some d"
    by (simp add: scraped_review_date)
qed


lemma codes_approved_first: "u ''Approved 1/2/2020'' =
    [65, 112, 112, 114, 111, 118, 101, 100, 32, 49, 47, 50, 47, 50, 48, 50, 48]"
  by (simp add: u_def)

lemma codes_reviewed_first: "u ''Reviewed 5-6-2022'' =
    [82, 101, 118, 105, 101, 119, 101, 100, 32, 53, 45, 54, 45, 50, 48, 50, 50]"
  by (simp add: u_def)

lemma codes_approved_last: "u ''approved 3-4-2021'' =
    [97, 112, 112, 114, 111, 118, 101, 100, 32, 51, 45, 52, 45, 50, 48, 50, 49]"
  by (simp add: u_def)

lemma codes_review_last: "u ''Review date 7/8/2023'' =
    [82, 101, 118, 105, 101, 119, 32, 100, 97, 116, 101, 32, 55, 47, 56, 47, 50, 48,
     50, 51]"
  by (simp add: u_def)

lemma codes_date_a1: "u ''1/2/2020'' =
    [49, 47, 50, 47, 50, 48, 50, 48]"
  by (simp add: u_def)

lemma codes_date_r1: "u ''5-6-2022'' =
    [53, 45, 54, 45, 50, 48, 50, 50]"
  by (simp add: u_def)

lemma codes_date_a2: "u ''3-4-2021'' =
    [51, 45, 52, 45, 50, 48, 50, 49]"
  by (simp add: u_def)

lemma codes_date_r2: "u ''7/8/2023'' =
    [55, 47, 56, 47, 50, 48, 50, 51]"
  by (simp add: u_def)

lemma codes_mixed: "u ''approved 12-05/2024'' =
    [97, 112, 112, 114, 111, 118, 101, 100, 32, 49, 50, 45, 48, 53, 47, 50, 48, 50, 52]"
  by (simp add: u_def)

lemma codes_date_mixed: "u ''12-05/2024'' =
    [49, 50, 45, 48, 53, 47, 50, 48, 50, 52]"
  by (simp add: u_def)

lemma codes_kw_ad: "u ''approval date'' =
    [97, 112, 112, 114, 111, 118, 97, 108, 32, 100, 97, 116, 101]"
  by (simp add: u_def)

lemma codes_kw_a: "u ''approved'' =
    [97, 112, 112, 114, 111, 118, 101, 100]"
  by (simp add: u_def)

lemma codes_kw_rd: "u ''review date'' =
    [114, 101, 118, 105, 101, 119, 32, 100, 97, 116, 101]"
  by (simp add: u_def)

lemma codes_kw_r: "u ''reviewed'' =
    [114, 101, 118, 105, 101, 119, 101, 100]"
  by (simp add: u_def)

lemmas codes = codes_approved_first codes_reviewed_first codes_approved_last
  codes_review_last codes_date_a1 codes_date_r1 codes_date_a2 codes_date_r2 codes_mixed
  codes_date_mixed codes_kw_ad codes_kw_a codes_kw_rd codes_kw_r


lemmas keyword_eval = approval_keyword_def review_keyword_def lower_def ascii_lower_def

lemmas matcher_eval = match_date_def match_digits12_def match_digits_def digits_at_def
  is_digit_def is_sep_def match_sep_def match_end_def

lemma dated_page_strings:
  "stripped_strings dated_page =
     [u ''Approved 1/2/2020'', u ''Reviewed 5-6-2022'', u ''approved 3-4-2021'',
      u ''Review date 7/8/2023'']"
  by (simp add: stripped_strings_def dated_page_def strip_def is_space_def u_def)

lemma keyword_approved_first: "approval_keyword ascii_db (u ''Approved 1/2/2020'')"
  unfolding codes by (simp add: keyword_eval codes)

lemma keyword_reviewed_first: "review_keyword ascii_db (u ''Reviewed 5-6-2022'')"
  unfolding codes by (simp add: keyword_eval codes)

lemma keyword_approved_last: "approval_keyword ascii_db (u ''approved 3-4-2021'')"
  unfolding codes by (simp add: keyword_eval codes)

lemma keyword_review_last: "review_keyword ascii_db (u ''Review date 7/8/2023'')"
  unfolding codes by (simp add: keyword_eval codes)

lemma no_approval_keyword_review_last: "\<not> approval_keyword ascii_db (u ''Review date 7/8/2023'')"
  unfolding codes by (simp add: keyword_eval codes)

lemma keyword_mixed: "approval_keyword ascii_db (u ''approved 12-05/2024'')"
  unfolding codes by (simp add: keyword_eval codes)

lemma no_review_keyword_mixed: "\<not> review_keyword ascii_db (u ''approved 12-05/2024'')"
  unfolding codes by (simp add: keyword_eval codes)

lemma search_approved_first: "re_search_date ascii_db (u ''Approved 1/2/2020'') = Some (u ''1/2/2020'')"
  unfolding codes by (simp add: matcher_eval)

lemma search_reviewed_first: "re_search_date ascii_db (u ''Reviewed 5-6-2022'') = Some (u ''5-6-2022'')"
  unfolding codes by (simp add: matcher_eval)

lemma search_approved_last: "re_search_date ascii_db (u ''approved 3-4-2021'') = Some (u ''3-4-2021'')"
  unfolding codes by (simp add: matcher_eval)

lemma search_review_last: "re_search_date ascii_db (u ''Review date 7/8/2023'') = Some (u ''7/8/2023'')"
  unfolding codes by (simp add: matcher_eval)

lemma search_mixed: "re_search_date ascii_db (u ''approved 12-05/2024'') = Some (u ''12-05/2024'')"
  unfolding codes by (simp add: matcher_eval)


theorem last_matching_fragment_wins_witness:
  "stripped_strings dated_page =
     [u ''Approved 1/2/2020'', u ''Reviewed 5-6-2022''] @ [u ''approved 3-4-2021'']
       @ [u ''Review date 7/8/2023'']
   \<and> sets_approval ascii_db (u ''Approved 1/2/2020'')
   \<and> approval_keyword ascii_db (u ''approved 3-4-2021'')
   \<and> re_search_date ascii_db (u ''approved 3-4-2021'') = Some (u ''3-4-2021'')
   \<and> \<not> list_ex (sets_approval ascii_db) [u ''Review date 7/8/2023'']
   \<and> map_option (\<lambda>pol. approval_date (metadata pol))
         (scrape_policy_document ascii_db (u ''2026-11-04'') (u ''2026-11-04 09:00:00'')
            (Some dated_page) (u ''https://policies.rmit.edu.au/document/view.php?id=1''))
       = Some (u ''3-4-2021'')
   \<and> stripped_strings dated_page =
     [u ''Approved 1/2/2020'', u ''Reviewed 5-6-2022'', u ''approved 3-4-2021'']
       @ [u ''Review date 7/8/2023''] @ []
   \<and> sets_review ascii_db (u ''Reviewed 5-6-2022'')
   \<and> review_keyword ascii_db (u ''Review date 7/8/2023'')
   \<and> re_search_date ascii_db (u ''Review date 7/8/2023'') = Some (u ''7/8/2023'')
   \<and> \<not> list_ex (sets_review ascii_db) []
   \<and> map_option (\<lambda>pol. review_date (metadata pol))
         (scrape_policy_document ascii_db (u ''2026-11-04'') (u ''2026-11-04 09:00:00'')
            (Some dated_page) (u ''https://policies.rmit.edu.au/document/view.php?id=1''))
       = Some (u ''7/8/2023'')"
proof -
  have a1: "stripped_strings dated_page =
     [u ''Approved 1/2/2020'', u ''Reviewed 5-6-2022''] @ [u ''approved 3-4-2021'']
       @ [u ''Review date 7/8/2023'']"
    by (simp add: dated_page_strings)
  have a2: "sets_approval ascii_db (u ''Approved 1/2/2020'')"
    by (simp add: sets_approval_def keyword_approved_first search_approved_first)
  have a3: "\<not> list_ex (sets_approval ascii_db) [u ''Review date 7/8/2023'']"
    by (simp add: sets_approval_def no_approval_keyword_review_last)
  have a4: "map_option (\<lambda>pol. approval_date (metadata pol))
         (scrape_policy_document ascii_db (u ''2026-11-04'') (u ''2026-11-04 09:00:00'')
            (Some dated_page) (u ''https://policies.rmit.edu.au/document/view.php?id=1''))
       = Some (u ''3-4-2021'')"
    by (rule last_matching_fragment_wins
          [where before = "[u ''Approved 1/2/2020'', u ''Reviewed 5-6-2022'']"
             and fragment = "u ''approved 3-4-2021''"
             and after = "[u ''Review date 7/8/2023'']", THEN conjunct1, THEN mp])
       (intro conjI a1 keyword_approved_last search_approved_last a3)
  have r1: "stripped_strings dated_page =
     [u ''Approved 1/2/2020'', u ''Reviewed 5-6-2022'', u ''approved 3-4-2021'']
       @ [u ''Review date 7/8/2023''] @ []"
    by (simp add: dated_page_strings)
  have r2: "sets_review ascii_db (u ''Reviewed 5-6-2022'')"
    by (simp add: sets_review_def keyword_reviewed_first search_reviewed_first)
  have r3: "\<not> list_ex (sets_review ascii_db) []"
    by simp
  have r4: "map_option (\<lambda>pol. review_date (metadata pol))
         (scrape_policy_document ascii_db (u ''2026-11-04'') (u ''2026-11-04 09:00:00'')
            (Some dated_page) (u ''https://policies.rmit.edu.au/document/view.php?id=1''))
       = Some (u ''7/8/2023'')"
    by (rule last_matching_fragment_wins
          [where before = "[u ''Approved 1/2/2020'', u ''Reviewed 5-6-2022'',
                            u ''approved 3-4-2021'']"
             and fragment = "u ''Review date 7/8/2023''"
             and after = "[]", THEN conjunct2, THEN mp])
       (intro conjI r1 keyword_review_last search_review_last r3)
  show ?thesis
    by (intro conjI a1 a2 keyword_approved_last search_approved_last a3 a4 r1 r2 keyword_review_last search_review_last r3 r4)
qed

text \<open>
  Claim C5, as stated: the two separators of a date must be the same, so that a
  fragment whose only date mixes them sets nothing. The pattern has two independent
  classes \<open>[-/]\<close>: the fragment \<open>approved 12-05/2024\<close> sets the approval date to
  \<open>12-05/2024\<close>.
\<close>

theorem mixed_separators_set_date:
  "approval_keyword ascii_db (u ''approved 12-05/2024'')
   \<and> date_step ascii_db ([], []) (u ''approved 12-05/2024'') = (u ''12-05/2024'', [])"
  by (simp add: date_step_def Let_def keyword_mixed no_review_keyword_mixed search_mixed)

lemma sep_not_digit: "is_sep c \<Longrightarrow> \<not> is_digit db c"
  by (auto simp: is_sep_def is_digit_def)

lemmas matcher_defs = match_date_def match_digits12_def match_digits_def digits_at_def
  match_sep_def match_end_def

lemma length_8: "length m = 8 \<Longrightarrow> \<exists>a b c d e f g h. m = [a, b, c, d, e, f, g, h]"
  by (auto simp: length_Suc_conv eval_nat_numeral)

lemma length_9: "length m = 9 \<Longrightarrow> \<exists>a b c d e f g h i. m = [a, b, c, d, e, f, g, h, i]"
  by (auto simp: length_Suc_conv eval_nat_numeral)

lemma length_10:
  "length m = 10 \<Longrightarrow> \<exists>a b c d e f g h i j. m = [a, b, c, d, e, f, g, h, i, j]"
  by (auto simp: length_Suc_conv eval_nat_numeral)

lemma match_date_11:
  assumes "length m = 8" "list_all (is_digit db) (take 1 m)" "is_sep (m ! 1)"
    "list_all (is_digit db) (take 1 (drop 2 m))" "is_sep (m ! 3)"
    "list_all (is_digit db) (drop 4 m)"
  shows "match_date db (m @ post) = Some m"
proof -
  from length_8 [OF assms(1)] obtain a b c d e f g h where m: "m = [a, b, c, d, e, f, g, h]"
    by (elim exE) (rule that)
  from assms(2-) have "is_digit db a" "is_sep b" "is_digit db c" "is_sep d"
    "is_digit db e" "is_digit db f" "is_digit db g" "is_digit db h"
    unfolding m by simp_all
  moreover from this have "\<not> is_digit db b" "\<not> is_digit db d"
    by (simp_all add: sep_not_digit)
  ultimately show ?thesis
    unfolding m by (simp add: matcher_defs)
qed

lemma match_date_12:
  assumes "length m = 9" "list_all (is_digit db) (take 1 m)" "is_sep (m ! 1)"
    "list_all (is_digit db) (take 2 (drop 2 m))" "is_sep (m ! 4)"
    "list_all (is_digit db) (drop 5 m)"
  shows "match_date db (m @ post) = Some m"
proof -
  from length_9 [OF assms(1)] obtain a b c d e f g h i where m: "m = [a, b, c, d, e, f, g, h, i]"
    by (elim exE) (rule that)
  from assms(2-) have "is_digit db a" "is_sep b" "is_digit db c" "is_digit db d" "is_sep e"
    "is_digit db f" "is_digit db g" "is_digit db h" "is_digit db i"
    unfolding m by simp_all
  moreover from this have "\<not> is_digit db b" "\<not> is_digit db e"
    by (simp_all add: sep_not_digit)
  ultimately show ?thesis
    unfolding m by (simp add: matcher_defs)
qed

lemma match_date_21:
  assumes "length m = 9" "list_all (is_digit db) (take 2 m)" "is_sep (m ! 2)"
    "list_all (is_digit db) (take 1 (drop 3 m))" "is_sep (m ! 4)"
    "list_all (is_digit db) (drop 5 m)"
  shows "match_date db (m @ post) = Some m"
proof -
  from length_9 [OF assms(1)] obtain a b c d e f g h i where m: "m = [a, b, c, d, e, f, g, h, i]"
    by (elim exE) (rule that)
  from assms(2-) have "is_digit db a" "is_digit db b" "is_sep c" "is_digit db d" "is_sep e"
    "is_digit db f" "is_digit db g" "is_digit db h" "is_digit db i"
    unfolding m by simp_all
  moreover from this have "\<not> is_digit db c" "\<not> is_digit db e"
    by (simp_all add: sep_not_digit)
  ultimately show ?thesis
    unfolding m by (simp add: matcher_defs)
qed

lemma match_date_22:
  assumes "length m = 10" "list_all (is_digit db) (take 2 m)" "is_sep (m ! 2)"
    "list_all (is_digit db) (take 2 (drop 3 m))" "is_sep (m ! 5)"
    "list_all (is_digit db) (drop 6 m)"
  shows "match_date db (m @ post) = Some m"
proof -
  from length_10 [OF assms(1)] obtain a b c d e f g h i j where m: "m = [a, b, c, d, e, f, g, h, i, j]"
    by (elim exE) (rule that)
  from assms(2-) have "is_digit db a" "is_digit db b" "is_sep c" "is_digit db d"
    "is_digit db e" "is_sep f" "is_digit db g" "is_digit db h" "is_digit db i" "is_digit db j"
    unfolding m by simp_all
  moreover from this have "\<not> is_digit db c" "\<not> is_digit db f"
    by (simp_all add: sep_not_digit)
  ultimately show ?thesis
    unfolding m by (simp add: matcher_defs)
qed

lemma match_date_complete: "date_shaped db m \<Longrightarrow> match_date db (m @ post) = Some m"
  unfolding date_shaped_def
  using match_date_11 [of m db post] match_date_12 [of m db post]
    match_date_21 [of m db post] match_date_22 [of m db post]
  by (auto simp: numeral_2_eq_2 [symmetric])

lemma re_search_date_complete:
  assumes "date_shaped db m"
  shows "re_search_date db (a @ m @ b) \<noteq> None"
proof (induction a)
  case Nil
  from assms have "m \<noteq> []"
    using date_shaped_length [of db m] by auto
  then obtain c cs where "m @ b = c # cs"
    by (cases m) auto
  then show ?case
    using match_date_complete [OF assms, of b] by simp
next
  case (Cons x xs)
  then show ?case
    by (simp split: option.splits)
qed

text \<open>
  Claim C5, amended: a fragment changes the approval date (the review date) only when
  it has an approval (a review) keyword and the search finds a match in it, and the
  date stored is that match; a match is a part of the fragment made of one or two
  digits, a hyphen or a slash, one or two digits, a hyphen or a slash, not necessarily
  the same one, and four digits, and the search finds a match in every fragment that
  has such a part.
\<close>

theorem date_set_only_on_pattern:
  "(fst (date_step db dates fragment) \<noteq> fst dates \<longrightarrow>
      approval_keyword db fragment
      \<and> re_search_date db fragment = Some (fst (date_step db dates fragment)))
   \<and> (snd (date_step db dates fragment) \<noteq> snd dates \<longrightarrow>
      review_keyword db fragment
      \<and> re_search_date db fragment = Some (snd (date_step db dates fragment)))
   \<and> (re_search_date db fragment = Some m \<longrightarrow> date_shaped db m \<and> contains m fragment)
   \<and> (approval_keyword db fragment \<and> re_search_date db fragment = Some m \<longrightarrow>
      fst (date_step db dates fragment) = m)
   \<and> (review_keyword db fragment \<and> re_search_date db fragment = Some m \<longrightarrow>
      snd (date_step db dates fragment) = m)
   \<and> (date_shaped db m \<and> contains m fragment \<longrightarrow> re_search_date db fragment \<noteq> None)"
proof (intro conjI impI)
  assume "fst (date_step db dates fragment) \<noteq> fst dates"
  then show "approval_keyword db fragment"
    and "re_search_date db fragment = Some (fst (date_step db dates fragment))"
    by (auto simp: date_step_fst split: if_splits option.splits)
next
  assume "snd (date_step db dates fragment) \<noteq> snd dates"
  then show "review_keyword db fragment"
    and "re_search_date db fragment = Some (snd (date_step db dates fragment))"
    by (auto simp: date_step_snd split: if_splits option.splits)
next
  assume "re_search_date db fragment = Some m"
  then show "date_shaped db m" and "contains m fragment"
    using re_search_date_sound [of db fragment m] by simp_all
next
  assume "approval_keyword db fragment \<and> re_search_date db fragment = Some m"
  then show "fst (date_step db dates fragment) = m"
    by (simp add: date_step_fst)
next
  assume "review_keyword db fragment \<and> re_search_date db fragment = Some m"
  then show "snd (date_step db dates fragment) = m"
    by (simp add: date_step_snd)
next
  assume h: "date_shaped db m \<and> contains m fragment"
  then have "m \<noteq> []"
    using date_shaped_length [of db m] by auto
  with h obtain a b where "fragment = a @ m @ b"
    using contains_iff [of m fragment] by blast
  with h show "re_search_date db fragment \<noteq> None"
    using re_search_date_complete [of db m a b] by simp
qed


theorem date_set_only_on_pattern_witness:
  "fst (date_step ascii_db ([], []) (u ''Approved 1/2/2020'')) \<noteq> fst ([], [])
   \<and> approval_keyword ascii_db (u ''Approved 1/2/2020'')
   \<and> re_search_date ascii_db (u ''Approved 1/2/2020'') = Some (u ''1/2/2020'')
   \<and> date_shaped ascii_db (u ''1/2/2020'')
   \<and> contains (u ''1/2/2020'') (u ''Approved 1/2/2020'')
   \<and> fst (date_step ascii_db ([], []) (u ''Approved 1/2/2020'')) = u ''1/2/2020''
   \<and> snd (date_step ascii_db ([], []) (u ''Reviewed 5-6-2022'')) \<noteq> snd ([], [])
   \<and> review_keyword ascii_db (u ''Reviewed 5-6-2022'')
   \<and> re_search_date ascii_db (u ''Reviewed 5-6-2022'') = Some (u ''5-6-2022'')
   \<and> snd (date_step ascii_db ([], []) (u ''Reviewed 5-6-2022'')) = u ''5-6-2022''
   \<and> re_search_date ascii_db (u ''Approved 1/2/2020'') \<noteq> None"
proof -
  note a = date_set_only_on_pattern
    [of ascii_db "([], [])" "u ''Approved 1/2/2020''" "u ''1/2/2020''"]
  note r = date_set_only_on_pattern
    [of ascii_db "([], [])" "u ''Reviewed 5-6-2022''" "u ''5-6-2022''"]
  have a4: "fst (date_step ascii_db ([], []) (u ''Approved 1/2/2020'')) = u ''1/2/2020''"
    by (rule a [THEN conjunct2, THEN conjunct2, THEN conjunct2, THEN conjunct1, THEN mp])
       (intro conjI keyword_approved_first search_approved_first)
  have a1: "fst (date_step ascii_db ([], []) (u ''Approved 1/2/2020'')) \<noteq> fst ([], [])"
    unfolding a4 by (simp add: codes)
  have a3: "date_shaped ascii_db (u ''1/2/2020'')
      \<and> contains (u ''1/2/2020'') (u ''Approved 1/2/2020'')"
    by (rule a [THEN conjunct2, THEN conjunct2, THEN conjunct1, THEN mp]) (rule search_approved_first)
  have a2: "approval_keyword ascii_db (u ''Approved 1/2/2020'')
      \<and> re_search_date ascii_db (u ''Approved 1/2/2020'')
          = Some (fst (date_step ascii_db ([], []) (u ''Approved 1/2/2020'')))"
    by (rule a [THEN conjunct1, THEN mp]) (rule a1)
  have r5: "snd (date_step ascii_db ([], []) (u ''Reviewed 5-6-2022'')) = u ''5-6-2022''"
    by (rule r [THEN conjunct2, THEN conjunct2, THEN conjunct2, THEN conjunct2,
          THEN conjunct1, THEN mp])
       (intro conjI keyword_reviewed_first search_reviewed_first)
  have r1: "snd (date_step ascii_db ([], []) (u ''Reviewed 5-6-2022'')) \<noteq> snd ([], [])"
    unfolding r5 by (simp add: codes)
  have r2: "review_keyword ascii_db (u ''Reviewed 5-6-2022'')
      \<and> re_search_date ascii_db (u ''Reviewed 5-6-2022'')
          = Some (snd (date_step ascii_db ([], []) (u ''Reviewed 5-6-2022'')))"
    by (rule r [THEN conjunct2, THEN conjunct1, THEN mp]) (rule r1)
  have a6: "re_search_date ascii_db (u ''Approved 1/2/2020'') \<noteq> None"
    by (rule a [THEN conjunct2, THEN conjunct2, THEN conjunct2, THEN conjunct2,
          THEN conjunct2, THEN mp])
       (rule a3)
  show ?thesis
    by (intro conjI a1 a2 [THEN conjunct1] search_approved_first a3 [THEN conjunct1] a3 [THEN conjunct2] a4
        r1 r2 [THEN conjunct1] search_reviewed_first r5 a6)
qed

section \<open>Properties of the sections\<close>

lemma with_next_siblings_nodes:
  "map fst (with_next_siblings cs) = concat (map (\<lambda>c. c # descendants c) cs)"
  by (induction cs rule: with_next_siblings.induct) simp_all

lemma headings_find_all:
  "map fst (headings content_area) = find_all [''h2'', ''h3''] content_area"
proof -
  have "map fst (with_next_siblings (contents content_area)) = descendants content_area"
    by (cases content_area) (simp_all add: with_next_siblings_nodes)
  then have "find_all [''h2'', ''h3''] content_area
      = filter (named [''h2'', ''h3'']) (map fst (with_next_siblings (contents content_area)))"
    by (simp add: find_all_def)
  then show ?thesis
    by (simp add: headings_def filter_map comp_def)
qed

lemma doc_sections_scrape:
  "doc_sections (scrape_policy_document db today now (Some soup) url) =
     (case find_content_area soup of None \<Rightarrow> [] | Some content \<Rightarrow> extract_sections content)"
  by (simp add: doc_sections_def scrape_policy_document_def Let_def)

lemma doc_sections_None: "doc_sections (scrape_policy_document db today now None url) = []"
  by (simp add: doc_sections_def scrape_policy_document_def)

lemma section_of_clauses: "s \<in> set (section_of p) \<Longrightarrow> clauses s \<noteq> []"
  by (auto simp: section_of_def Let_def split: if_splits)

lemma extract_sections_clauses: "s \<in> set (extract_sections content) \<Longrightarrow> clauses s \<noteq> []"
  by (auto simp: extract_sections_def dest: section_of_clauses)

lemmas clean_eval = clean_text_def strip_def replace_char_def is_space_def

lemmas page_eval = paragraph_page_def paragraph_body_def scope_heading_def scope_following_def
  repeated_heading_def repeated_following_def

lemma paragraph_page_content: "find_content_area paragraph_page = Some paragraph_body"
  by (simp add: find_content_area_def find_first_def named_def has_class_def page_eval)

lemma scope_in_headings: "(scope_heading, scope_following) \<in> set (headings paragraph_body)"
  by (simp add: headings_def paragraph_body_def scope_heading_def named_def)

lemma repeated_in_headings:
  "(repeated_heading, repeated_following) \<in> set (headings paragraph_body)"
  by (simp add: headings_def named_def page_eval)

lemma scope_section_of: "section_of (scope_heading, scope_following) = [scope_section]"
  by (simp add: section_of_def Let_def find_next_siblings_def page_eval node_eq_def
      scope_section_def named_def clean_eval u_def str_nat_digit)

lemma repeated_section_of:
  "section_of (repeated_heading, repeated_following) = [repeated_section]"
  by (simp add: section_of_def Let_def find_next_siblings_def page_eval node_eq_def
      repeated_section_def named_def clean_eval u_def str_nat_digit)

lemma paragraph_body_sections:
  "extract_sections paragraph_body = [scope_section, repeated_section]"
  by (simp add: extract_sections_def headings_def named_def page_eval section_of_def Let_def
      find_next_siblings_def node_eq_def scope_section_def repeated_section_def clean_eval
      u_def str_nat_digit)

lemma list_page_content: "find_content_area list_page = Some list_body"
  by (simp add: find_content_area_def find_first_def named_def has_class_def list_page_def
      list_body_def list_heading_def list_following_def long_item_def)

lemma list_in_headings: "(list_heading, list_following) \<in> set (headings list_body)"
  by (simp add: headings_def list_body_def list_heading_def named_def)

lemma list_section_of: "section_of (list_heading, list_following) = [list_section]"
  by (simp add: section_of_def Let_def find_next_siblings_def list_heading_def
      list_following_def long_item_def list_section_def named_def node_eq_def
      extract_clauses_from_list_def find_all_direct_def clause_of_item_def subclauses_of_def
      find_first_def clean_eval u_def str_nat_digit)

text \<open>
  Claim C6: no section of the result of the document extractor has an empty clause
  sequence; a heading that yields no clause yields no section.
\<close>

theorem no_section_without_clauses:
  "s \<in> set (doc_sections (scrape_policy_document db today now response url))
   \<Longrightarrow> clauses s \<noteq> []"
proof (cases response)
  case None
  assume "s \<in> set (doc_sections (scrape_policy_document db today now response url))"
  with None show ?thesis by (simp add: doc_sections_None)
next
  case (Some soup)
  assume "s \<in> set (doc_sections (scrape_policy_document db today now response url))"
  with Some show ?thesis
    by (auto simp: doc_sections_scrape split: option.splits dest: extract_sections_clauses)
qed

theorem no_section_without_clauses_witness:
  "doc_sections (scrape_policy_document ascii_db (u ''2026-11-04'') (u ''2026-11-04 09:00:00'')
       (Some paragraph_page) (u ''https://policies.rmit.edu.au/document/view.php?id=1''))
     = [scope_section, repeated_section]
   \<and> scope_section \<in> set (doc_sections (scrape_policy_document ascii_db (u ''2026-11-04'')
       (u ''2026-11-04 09:00:00'') (Some paragraph_page)
       (u ''https://policies.rmit.edu.au/document/view.php?id=1'')))
   \<and> clauses scope_section \<noteq> []"
proof -
  have e: "doc_sections (scrape_policy_document ascii_db (u ''2026-11-04'')
       (u ''2026-11-04 09:00:00'') (Some paragraph_page)
       (u ''https://policies.rmit.edu.au/document/view.php?id=1''))
     = [scope_section, repeated_section]"
    by (simp add: doc_sections_scrape paragraph_page_content paragraph_body_sections)
  then have m: "scope_section \<in> set (doc_sections (scrape_policy_document ascii_db
       (u ''2026-11-04'') (u ''2026-11-04 09:00:00'') (Some paragraph_page)
       (u ''https://policies.rmit.edu.au/document/view.php?id=1'')))"
    by simp
  have "clauses scope_section \<noteq> []"
    by (rule no_section_without_clauses [OF m])
  with e m show ?thesis by (intro conjI)
qed

lemma str_nat_value: "foldl (\<lambda>a d. 10 * a + (d - 48)) 0 (str_nat n) = n"
proof (induction n rule: str_nat.induct)
  case (1 n)
  show ?case
  proof (cases "n < 10")
    case True
    then show ?thesis by (simp add: str_nat.simps)
  next
    case False
    with 1 show ?thesis
      by (subst str_nat.simps) simp
  qed
qed

lemma str_nat_inj: "str_nat a = str_nat b \<Longrightarrow> a = b"
  by (metis str_nat_value)

lemma number_inj: "inj (\<lambda>i. str_nat (i + 1))"
  by (auto simp: inj_on_def dest: str_nat_inj)

lemma list_numbers:
  "map clause_number (extract_clauses_from_list sibling)
     = map (\<lambda>i. str_nat (i + 1)) (kept_positions sibling)"
  by (simp add: extract_clauses_from_list_def clause_numbers_of_items kept_positions_def
      comp_def)

lemma list_length:
  "length (extract_clauses_from_list sibling) = length (kept_positions sibling)"
  using list_numbers [of sibling, THEN arg_cong [where f = length]] by simp

lemma collect_clauses_numbers:
  "map clause_number (collect_clauses heading siblings cl)
     = map clause_number cl @ numbers_from (length cl) (walked heading siblings)"
proof (induction siblings arbitrary: cl)
  case Nil
  then show ?case by (simp add: walked_def)
next
  case (Cons sibling rest)
  show ?case
  proof (cases "named [''h2'', ''h3''] sibling \<and> \<not> node_eq sibling heading")
    case True
    then show ?thesis by (simp add: walked_def)
  next
    case False
    then have w: "walked heading (sibling # rest) = sibling # walked heading rest"
      by (simp add: walked_def)
    show ?thesis
    proof (cases "name sibling = Some ''ol''")
      case True
      have c: "collect_clauses heading (sibling # rest) cl
          = collect_clauses heading rest (cl @ extract_clauses_from_list sibling)"
        using False True by auto
      have nf: "numbers_from (length cl) (sibling # walked heading rest)
          = map (\<lambda>i. str_nat (i + 1)) (kept_positions sibling)
            @ numbers_from (length cl + length (kept_positions sibling)) (walked heading rest)"
        using True by simp
      show ?thesis
        unfolding w c nf by (simp add: Cons.IH list_numbers list_length)
    next
      case ol: False
      show ?thesis
      proof (cases "name sibling = Some ''p'' \<and> retained sibling")
        case True
        have c: "collect_clauses heading (sibling # rest) cl
            = collect_clauses heading rest
                (cl @ [\<lparr>clause_number = str_nat (length cl + 1),
                         clause_text = clean_text (get_text sibling), subclauses = []\<rparr>])"
          using False ol True by (auto simp: retained_def Let_def)
        have nf: "numbers_from (length cl) (sibling # walked heading rest)
            = str_nat (length cl + 1) # numbers_from (length cl + 1) (walked heading rest)"
          using True ol by simp
        show ?thesis
          unfolding w c nf by (simp add: Cons.IH)
      next
        case no: False
        have c: "collect_clauses heading (sibling # rest) cl
            = collect_clauses heading rest cl"
          using False ol no by (auto simp: retained_def Let_def)
        have nf: "numbers_from (length cl) (sibling # walked heading rest)
            = numbers_from (length cl) (walked heading rest)"
          using no ol by auto
        show ?thesis
          unfolding w c nf by (simp add: Cons.IH)
      qed
    qed
  qed
qed

lemma numbers_continue:
  "(numbers_from n ws = map (\<lambda>i. str_nat (i + 1)) [n..<n + length (numbers_from n ws)])
     = continues_count n ws"
proof (induction ws arbitrary: n)
  case Nil
  then show ?case by simp
next
  case (Cons sibling rest)
  show ?case
  proof (cases "name sibling = Some ''ol''")
    case True
    define K where "K = kept_positions sibling"
    define N where "N = numbers_from (n + length K) rest"
    have split: "[n..<n + (length K + length N)] = [n..<n + length K] @ [n + length K..<n + length K + length N]"
      by (metis add.assoc le_add1 upt_add_eq_append)
    have "(map (\<lambda>i. str_nat (i + 1)) K @ N
          = map (\<lambda>i. str_nat (i + 1)) [n..<n + (length K + length N)])
        = (map (\<lambda>i. str_nat (i + 1)) K = map (\<lambda>i. str_nat (i + 1)) [n..<n + length K]
           \<and> N = map (\<lambda>i. str_nat (i + 1)) [n + length K..<n + length K + length N])"
      unfolding split by simp
    also have "(map (\<lambda>i. str_nat (i + 1)) K = map (\<lambda>i. str_nat (i + 1)) [n..<n + length K])
        = (K = [n..<n + length K])"
      by (rule inj_map_eq_map [OF number_inj])
    also have "(N = map (\<lambda>i. str_nat (i + 1)) [n + length K..<n + length K + length N])
        = continues_count (n + length K) rest"
      unfolding N_def by (rule Cons.IH)
    finally show ?thesis
      using True by (simp add: K_def N_def)
  next
    case ol: False
    show ?thesis
    proof (cases "name sibling = Some ''p'' \<and> retained sibling")
      case True
      define N where "N = numbers_from (n + 1) rest"
      have "[n..<n + Suc (length N)] = n # [n + 1..<n + 1 + length N]"
        by (subst upt_rec) simp
      then have "(str_nat (n + 1) # N = map (\<lambda>i. str_nat (i + 1)) [n..<n + Suc (length N)])
          = (N = map (\<lambda>i. str_nat (i + 1)) [n + 1..<n + 1 + length N])"
        by simp
      also have "\<dots> = continues_count (n + 1) rest"
        unfolding N_def by (rule Cons.IH)
      finally show ?thesis
        using True ol by (simp add: N_def)
    next
      case False
      with ol Cons.IH [of n] show ?thesis by auto
    qed
  qed
qed

lemma no_list_continues:
  "\<not> list_ex (\<lambda>sibling. name sibling = Some ''ol'') ws \<Longrightarrow> continues_count n ws"
  by (induction ws arbitrary: n) auto

lemma section_of_numbers:
  assumes "s \<in> set (section_of (heading, following))"
  shows "map clause_number (clauses s)
           = numbers_from 0 (walked heading (find_next_siblings following))"
    and "contiguous (clauses s)
           = continues_count 0 (walked heading (find_next_siblings following))"
proof -
  from assms have c: "clauses s = collect_clauses heading (find_next_siblings following) []"
    by (auto simp: section_of_def Let_def split: if_splits)
  show n: "map clause_number (clauses s)
           = numbers_from 0 (walked heading (find_next_siblings following))"
    unfolding c using collect_clauses_numbers [of heading "find_next_siblings following" "[]"]
    by simp
  have "length (clauses s)
      = length (numbers_from 0 (walked heading (find_next_siblings following)))"
    using n [THEN arg_cong [where f = length]] by simp
  then show "contiguous (clauses s)
           = continues_count 0 (walked heading (find_next_siblings following))"
    using numbers_continue [of 0 "walked heading (find_next_siblings following)"]
    by (simp add: contiguous_def n)
qed

lemma skipped_item_sections:
  "map (\<lambda>s. map clause_number (clauses s))
     (doc_sections (scrape_policy_document ascii_db (u ''2026-11-04'')
        (u ''2026-11-04 09:00:00'') (Some skipped_item_page)
        (u ''https://policies.rmit.edu.au/document/view.php?id=2'')))
   = [[u ''2'']]"
proof -
  have c: "find_content_area skipped_item_page =
      Some (Elem ''body'' []
          [Elem ''h2'' [] [Text (u ''Scope'')], Elem ''ol'' [] [short_item, long_item]])"
    by (simp add: find_content_area_def find_first_def named_def has_class_def
        skipped_item_page_def short_item_def long_item_def)
  show ?thesis
    unfolding doc_sections_scrape c
    by (simp add: extract_sections_def headings_def named_def section_of_def Let_def
        find_next_siblings_def extract_clauses_from_list_def find_all_direct_def
        clause_of_item_def subclauses_of_def find_first_def short_item_def long_item_def
        clean_eval u_def str_nat_digit)
qed

text \<open>
  Claim C2, as stated: in every section of an extracted document the clause numbers are
  1, 2, ..., k. A clause from a list carries its position in that list, the skipped
  items counted: a section made of a list whose first item is too short has the single
  clause number 2.
\<close>

theorem skipped_item_breaks_numbering:
  "map (\<lambda>s. map clause_number (clauses s))
     (doc_sections (scrape_policy_document ascii_db (u ''2026-11-04'')
        (u ''2026-11-04 09:00:00'') (Some skipped_item_page)
        (u ''https://policies.rmit.edu.au/document/view.php?id=2'')))
   = [[u ''2'']]
   \<and> \<not> list_all (\<lambda>s. contiguous (clauses s))
     (doc_sections (scrape_policy_document ascii_db (u ''2026-11-04'')
        (u ''2026-11-04 09:00:00'') (Some skipped_item_page)
        (u ''https://policies.rmit.edu.au/document/view.php?id=2'')))"
proof -
  let ?secs = "doc_sections (scrape_policy_document ascii_db (u ''2026-11-04'')
        (u ''2026-11-04 09:00:00'') (Some skipped_item_page)
        (u ''https://policies.rmit.edu.au/document/view.php?id=2''))"
  have n: "map (\<lambda>s. map clause_number (clauses s)) ?secs = [[u ''2'']]"
    by (rule skipped_item_sections)
  then obtain s where s: "?secs = [s]" and c: "map clause_number (clauses s) = [u ''2'']"
    by auto
  from c have "length (clauses s) = 1"
    by (metis length_map length_Cons list.size(3) One_nat_def)
  with c have "\<not> contiguous (clauses s)"
    by (simp add: contiguous_def str_nat_digit u_def)
  with s n show ?thesis by simp
qed

text \<open>
  Claim C2, amended: the sections of an extracted document are those of the headings
  of the content area, in order. In each of them a clause from a paragraph has the
  number of clauses collected before it in the section plus one, and a clause from a
  list has the position of its item among the direct items of that list plus one. The
  numbers of a section are 1, 2, ..., k exactly when every list visited continues the
  count, keeping the items at the positions that follow the clauses collected before
  it and no other; so they are whenever no list is visited, however many siblings were
  skipped.
\<close>

theorem section_clause_numbers:
  "find_content_area soup = Some content \<Longrightarrow>
   doc_sections (scrape_policy_document db today now (Some soup) url)
     = concat (map section_of (headings content))
   \<and> (\<forall>heading following s.
        (heading, following) \<in> set (headings content)
        \<and> s \<in> set (section_of (heading, following))
        \<longrightarrow> map clause_number (clauses s)
              = numbers_from 0 (walked heading (find_next_siblings following))
            \<and> contiguous (clauses s)
              = continues_count 0 (walked heading (find_next_siblings following))
            \<and> (\<not> list_ex (\<lambda>sibling. name sibling = Some ''ol'')
                   (walked heading (find_next_siblings following))
               \<longrightarrow> contiguous (clauses s)))"
proof (intro conjI allI impI)
  assume "find_content_area soup = Some content"
  then show "doc_sections (scrape_policy_document db today now (Some soup) url)
     = concat (map section_of (headings content))"
    by (simp add: doc_sections_scrape extract_sections_def)
next
  fix heading following s
  assume "(heading, following) \<in> set (headings content)
        \<and> s \<in> set (section_of (heading, following))"
  then have s: "s \<in> set (section_of (heading, following))"
    by (rule conjunct2)
  show "map clause_number (clauses s)
      = numbers_from 0 (walked heading (find_next_siblings following))"
    by (rule section_of_numbers(1) [OF s])
  show c: "contiguous (clauses s)
      = continues_count 0 (walked heading (find_next_siblings following))"
    by (rule section_of_numbers(2) [OF s])
  assume "\<not> list_ex (\<lambda>sibling. name sibling = Some ''ol'')
                   (walked heading (find_next_siblings following))"
  then show "contiguous (clauses s)"
    unfolding c by (rule no_list_continues)
qed

theorem section_clause_numbers_witness:
  "find_content_area paragraph_page = Some paragraph_body
   \<and> doc_sections (scrape_policy_document ascii_db (u ''2026-11-04'')
        (u ''2026-11-04 09:00:00'') (Some paragraph_page)
        (u ''https://policies.rmit.edu.au/document/view.php?id=1''))
     = concat (map section_of (headings paragraph_body))
   \<and> (scope_heading, scope_following) \<in> set (headings paragraph_body)
   \<and> scope_section \<in> set (section_of (scope_heading, scope_following))
   \<and> \<not> list_ex (\<lambda>sibling. name sibling = Some ''ol'')
         (walked scope_heading (find_next_siblings scope_following))
   \<and> numbers_from 0 (walked scope_heading (find_next_siblings scope_following))
       = [u ''1'', u ''2'']
   \<and> continues_count 0 (walked scope_heading (find_next_siblings scope_following))
   \<and> contiguous (clauses scope_section)
   \<and> find_content_area list_page = Some list_body
   \<and> (list_heading, list_following) \<in> set (headings list_body)
   \<and> list_section \<in> set (section_of (list_heading, list_following))
   \<and> numbers_from 0 (walked list_heading (find_next_siblings list_following))
       = [u ''1'', u ''2'', u ''3'']
   \<and> continues_count 0 (walked list_heading (find_next_siblings list_following))
   \<and> contiguous (clauses list_section)"
proof -
  note t = section_clause_numbers [OF paragraph_page_content,
      of ascii_db "u ''2026-11-04''" "u ''2026-11-04 09:00:00''"
      "u ''https://policies.rmit.edu.au/document/view.php?id=1''"]
  note l = section_clause_numbers [OF list_page_content,
      of ascii_db "u ''2026-11-04''" "u ''2026-11-04 09:00:00''"
      "u ''https://policies.rmit.edu.au/document/view.php?id=3''"]
  have m: "scope_section \<in> set (section_of (scope_heading, scope_following))"
    by (simp add: scope_section_of)
  have w: "\<not> list_ex (\<lambda>sibling. name sibling = Some ''ol'')
         (walked scope_heading (find_next_siblings scope_following))"
    by (simp add: walked_def find_next_siblings_def page_eval named_def node_eq_def)
  note ts = t [THEN conjunct2, rule_format, of scope_heading scope_following scope_section,
      OF conjI [OF scope_in_headings m]]
  have n: "numbers_from 0 (walked scope_heading (find_next_siblings scope_following))
       = [u ''1'', u ''2'']"
    unfolding ts [THEN conjunct1, symmetric] by (simp add: scope_section_def)
  have c: "contiguous (clauses scope_section)"
    by (rule ts [THEN conjunct2, THEN conjunct2, THEN mp, OF w])
  have k: "continues_count 0 (walked scope_heading (find_next_siblings scope_following))"
    unfolding ts [THEN conjunct2, THEN conjunct1, symmetric] by (rule c)
  have lm: "list_section \<in> set (section_of (list_heading, list_following))"
    by (simp add: list_section_of)
  note ls = l [THEN conjunct2, rule_format, of list_heading list_following list_section,
      OF conjI [OF list_in_headings lm]]
  have ln: "numbers_from 0 (walked list_heading (find_next_siblings list_following))
       = [u ''1'', u ''2'', u ''3'']"
    unfolding ls [THEN conjunct1, symmetric] by (simp add: list_section_def)
  have lc: "contiguous (clauses list_section)"
    by (simp add: contiguous_def list_section_def str_nat_digit u_def)
  have lk: "continues_count 0 (walked list_heading (find_next_siblings list_following))"
    unfolding ls [THEN conjunct2, THEN conjunct1, symmetric] by (rule lc)
  show ?thesis
    by (intro conjI paragraph_page_content t [THEN conjunct1] scope_in_headings m w n k c
        list_page_content list_in_headings lm ln lk lc)
qed

end
